theory Spec2Isabelle
  imports Main
begin

section \<open>Data model of the signalling server\<close>

text \<open>
  The server of \<^verbatim>\<open>src/frontendlogic.md\<close> (the Redis-capable \<^verbatim>\<open>index.js\<close>) is modelled;
  \<^verbatim>\<open>src/src/index.js\<close> is the same program without the rate limiter, the \<^verbatim>\<open>lastSeen\<close>
  stamp and the Redis branches, that is, the model below with \<open>redis = None\<close>.

  Identifiers are the strings returned by \<^verbatim>\<open>crypto.randomUUID()\<close>. A client object lives at
  the address given by its identifier: the \<^verbatim>\<open>clients\<close> Map is the list of its keys in
  insertion order together with a store of objects, so that a handler that mutates
  \<^verbatim>\<open>partner\<close> mutates the object every other reference sees. An object stays in the
  store after \<^verbatim>\<open>clients.delete\<close>, as it stays reachable from the callbacks of its socket;
  an address at which no connection was ever made holds an object with the empty id.
\<close>

type_synonym cid = string

datatype code = ALREADY_PAIRED | NOT_PAIRED | INVALID_FORMAT | UNKNOWN_TYPE | RATE_LIMIT

text \<open>Server-to-client messages; the \<^verbatim>\<open>message\<close> text of an error is fixed by its code.\<close>

datatype out_msg =
    Ready cid
  | Matched string cid
  | PartnerLeft
  | Error code
  | Pong
  | OfferFrom cid string
  | AnswerFrom cid string
  | IceFrom cid string

text \<open>Client-to-server messages after \<^verbatim>\<open>JSON.parse\<close>, by their \<^verbatim>\<open>type\<close> field.\<close>

datatype in_msg =
    Auth "string option"
  | Available
  | Offer string
  | Answer string
  | Ice string
  | Next
  | Leave
  | Ping
  | Other string

datatype raw = Malformed | Json in_msg

record client =
  ident :: cid
  wsOpen :: bool
  userId :: "string option"
  partnerId :: "cid option"
  roomId :: "string option"
  isAvailable :: bool
  rate_ts :: int
  rate_count :: int
  lastSeen :: "int option"

text \<open>
  What a callback reads from outside the process: the clock, the next value of
  \<^verbatim>\<open>crypto.randomUUID()\<close>, and whether the Redis store answers the commands that this
  callback issues (a command issued while it does not answer has no effect and rejects).
\<close>

record env =
  now :: int
  uuid :: string
  storeUp :: bool

text \<open>
  \<^verbatim>\<open>handleAvailable\<close> is asynchronous: at each awaited Redis command it returns to the event
  loop, and other callbacks run before it continues. A suspended call is the client object
  it runs for and the point at which it waits, with the reply that will arrive:
  \<^item> \<open>AwaitPop i r\<close>: in \<^verbatim>\<open>tryMatchGlobal\<close>, iteration \<open>i\<close>, at \<^verbatim>\<open>await redis.rpop\<close>;
    \<open>r\<close> is \<open>None\<close> for a rejection, else the popped id or \<^verbatim>\<open>null\<close>;
  \<^item> \<open>AwaitPushBack i ok\<close>: in \<^verbatim>\<open>tryMatchGlobal\<close>, iteration \<open>i\<close>, at \<^verbatim>\<open>await redis.lpush\<close>
    of the popped own id;
  \<^item> \<open>AwaitEnqueue ok\<close>: at \<^verbatim>\<open>await redis.lpush(WAITING_LIST, client.id)\<close>;
  \<^item> \<open>AwaitPublish ok\<close>: at \<^verbatim>\<open>await publishSignal(...)\<close>.
  Replies arrive in the order the commands were issued on the one Redis connection, so the
  suspended calls form a queue.
\<close>

datatype kont =
    AwaitPop nat "cid option option"
  | AwaitPushBack nat bool
  | AwaitEnqueue bool
  | AwaitPublish bool

record server =
  REQUEUE_ON_PARTNER_LEAVE :: bool
  MAX_MSG_PER_SECOND :: int
  clients :: "cid list"
  heap :: "cid \<Rightarrow> client"
  waitingQueue :: "cid list"
  redis :: "cid list option"
  sent :: "(cid \<times> out_msg) list"
  published :: "(cid \<times> out_msg) list"
  pending :: "(cid \<times> kont) list"

section \<open>Primitives\<close>

text \<open>JavaScript truthiness of a value that is \<^verbatim>\<open>null\<close> or a string.\<close>

definition truthy :: "string option \<Rightarrow> bool" where
  "truthy v = (case v of None \<Rightarrow> False | Some x \<Rightarrow> x \<noteq> [])"

text \<open>\<^verbatim>\<open>clients.get(k)\<close>: the object registered under \<open>k\<close>, as its address.\<close>

definition clients_get :: "server \<Rightarrow> cid \<Rightarrow> cid option" where
  "clients_get s k = (if k \<in> set (clients s) then Some k else None)"

text \<open>\<^verbatim>\<open>clients.set(k, obj)\<close> keeps the position of a key that is already there.\<close>

definition clients_set :: "cid \<Rightarrow> client \<Rightarrow> server \<Rightarrow> server" where
  "clients_set k c s =
     s\<lparr>clients := (if k \<in> set (clients s) then clients s else clients s @ [k]),
       heap := (heap s)(k := c)\<rparr>"

definition clients_delete :: "cid \<Rightarrow> server \<Rightarrow> server" where
  "clients_delete k s = s\<lparr>clients := removeAll k (clients s)\<rparr>"

text \<open>A field assignment on the object at address \<open>i\<close>.\<close>

definition modify :: "cid \<Rightarrow> (client \<Rightarrow> client) \<Rightarrow> server \<Rightarrow> server" where
  "modify i f s = s\<lparr>heap := (heap s)(i := f (heap s i))\<rparr>"

text \<open>\<^verbatim>\<open>Array.prototype.indexOf\<close>, \<^verbatim>\<open>splice(index, 1)\<close> and the removal idiom built from them.\<close>

fun indexOf :: "'a list \<Rightarrow> 'a \<Rightarrow> int" where
  "indexOf [] x = - 1"
| "indexOf (y # ys) x =
     (if y = x then 0 else (let r = indexOf ys x in if r > - 1 then r + 1 else - 1))"

definition splice1 :: "'a list \<Rightarrow> nat \<Rightarrow> 'a list" where
  "splice1 xs n = take n xs @ drop (Suc n) xs"

definition queueRemove :: "'a \<Rightarrow> 'a list \<Rightarrow> 'a list" where
  "queueRemove x q = (let index = indexOf q x in if index > - 1 then splice1 q (nat index) else q)"

text \<open>\<^verbatim>\<open>if (!waitingQueue.includes(x)) waitingQueue.push(x)\<close>\<close>

definition queuePush :: "cid \<Rightarrow> server \<Rightarrow> server" where
  "queuePush x s =
     (if x \<in> set (waitingQueue s) then s else s\<lparr>waitingQueue := waitingQueue s @ [x]\<rparr>)"

text \<open>
  \<^verbatim>\<open>sendToClient\<close> writes to the socket only when it is \<^verbatim>\<open>OPEN\<close>; \<open>sent\<close> is the log of
  what was written, by receiving connection. A \<^verbatim>\<open>ws.send\<close> that throws is caught by the
  source and is not modelled.
\<close>

definition sendToClient :: "cid \<Rightarrow> out_msg \<Rightarrow> server \<Rightarrow> server" where
  "sendToClient i m s = (if wsOpen (heap s i) then s\<lparr>sent := sent s @ [(i, m)]\<rparr> else s)"

text \<open>
  The Redis list \<^verbatim>\<open>webrtc:waiting\<close>, head at the left: \<^verbatim>\<open>lpush\<close> conses, \<^verbatim>\<open>rpop\<close> takes the
  last element. \<^verbatim>\<open>publishSignal\<close> appends to the log of published envelopes; a store that
  does not answer publishes nothing.
\<close>

definition lpush :: "cid \<Rightarrow> cid list \<Rightarrow> cid list" where
  "lpush x l = x # l"

definition rpop :: "cid list \<Rightarrow> cid option \<times> cid list" where
  "rpop l = (if l = [] then (None, l) else (Some (last l), butlast l))"

text \<open>
  A command issued by a callback takes effect on the list when the store answers; the
  reply is handed to the continuation later.
\<close>

definition redis_rpop :: "env \<Rightarrow> server \<Rightarrow> cid option option \<times> server" where
  "redis_rpop e s =
     (case (if storeUp e then redis s else None) of
        None \<Rightarrow> (None, s)
      | Some l \<Rightarrow> (Some (fst (rpop l)), s\<lparr>redis := Some (snd (rpop l))\<rparr>))"

definition redis_lpush :: "env \<Rightarrow> cid \<Rightarrow> server \<Rightarrow> bool \<times> server" where
  "redis_lpush e x s =
     (case (if storeUp e then redis s else None) of
        None \<Rightarrow> (False, s)
      | Some l \<Rightarrow> (True, s\<lparr>redis := Some (lpush x l)\<rparr>))"

definition suspend :: "cid \<Rightarrow> kont \<Rightarrow> server \<Rightarrow> server" where
  "suspend i k s = s\<lparr>pending := pending s @ [(i, k)]\<rparr>"

definition publishSignal :: "env \<Rightarrow> cid \<Rightarrow> out_msg \<Rightarrow> server \<Rightarrow> server" where
  "publishSignal e partner payload s =
     (if redis s = None \<or> \<not> storeUp e then s
      else s\<lparr>published := published s @ [(partner, payload)]\<rparr>)"

section \<open>The rate limiter\<close>

definition rateLimitOK :: "env \<Rightarrow> cid \<Rightarrow> server \<Rightarrow> bool \<times> server" where
  "rateLimitOK e i s =
     (if now e - rate_ts (heap s i) > 1000
      then (True, modify i (\<lambda>c. c\<lparr>rate_ts := now e, rate_count := 1\<rparr>) s)
      else (let s1 = modify i (\<lambda>c. c\<lparr>rate_count := rate_count c + 1\<rparr>) s
            in (rate_count (heap s1 i) \<le> MAX_MSG_PER_SECOND s1, s1)))"

section \<open>Matchmaking\<close>

definition findAvailablePartner :: "cid \<Rightarrow> server \<Rightarrow> cid option" where
  "findAvailablePartner excludeId s =
     find (\<lambda>clientId. clientId \<noteq> excludeId \<and> isAvailable (heap s clientId)
                       \<and> \<not> truthy (partnerId (heap s clientId)))
          (clients s)"

definition createRoom :: "string \<Rightarrow> cid \<Rightarrow> cid \<Rightarrow> server \<Rightarrow> server" where
  "createRoom room client1 client2 s =
     (let s1 = modify client1 (\<lambda>c. c\<lparr>partnerId := Some (ident (heap s client2)),
                                       roomId := Some room, isAvailable := False\<rparr>) s;
          s2 = modify client2 (\<lambda>c. c\<lparr>partnerId := Some (ident (heap s1 client1)),
                                       roomId := Some room, isAvailable := False\<rparr>) s1;
          s3 = s2\<lparr>waitingQueue := queueRemove (ident (heap s2 client1)) (waitingQueue s2)\<rparr>;
          s4 = s3\<lparr>waitingQueue := queueRemove (ident (heap s3 client2)) (waitingQueue s3)\<rparr>;
          s5 = sendToClient client1 (Matched room (ident (heap s4 client2))) s4
      in sendToClient client2 (Matched room (ident (heap s5 client1))) s5)"

text \<open>
  The code of \<^verbatim>\<open>handleAvailable\<close> after its \<^verbatim>\<open>if (redis)\<close> block, also reached from the
  \<^verbatim>\<open>catch\<close> when an awaited Redis command rejects.
\<close>

definition localFallback :: "env \<Rightarrow> cid \<Rightarrow> server \<Rightarrow> server" where
  "localFallback e i s =
     (case findAvailablePartner (ident (heap s i)) s of
        Some partner \<Rightarrow> createRoom (uuid e) i partner s
      | None \<Rightarrow> queuePush (ident (heap s i)) s)"

text \<open>
  One iteration of the loop of \<^verbatim>\<open>tryMatchGlobal\<close> up to its first await: \<^verbatim>\<open>redis.rpop\<close> is
  issued and the call waits for the reply.
\<close>

definition tryMatchGlobal_pop :: "env \<Rightarrow> nat \<Rightarrow> cid \<Rightarrow> server \<Rightarrow> server" where
  "tryMatchGlobal_pop e n i s =
     (let (r, s1) = redis_rpop e s in suspend i (AwaitPop n r) s1)"

text \<open>\<^verbatim>\<open>await redis.lpush(WAITING_LIST, client.id)\<close>, when \<^verbatim>\<open>tryMatchGlobal\<close> returned \<^verbatim>\<open>null\<close>.\<close>

definition enqueueGlobal :: "env \<Rightarrow> cid \<Rightarrow> server \<Rightarrow> server" where
  "enqueueGlobal e i s =
     (let (ok, s1) = redis_lpush e (ident (heap s i)) s in suspend i (AwaitEnqueue ok) s1)"

text \<open>The \<^verbatim>\<open>if (partnerId)\<close> block of \<^verbatim>\<open>handleAvailable\<close>, for the id \<open>p\<close> that was popped.\<close>

definition matchedGlobal :: "env \<Rightarrow> cid \<Rightarrow> cid \<Rightarrow> server \<Rightarrow> server" where
  "matchedGlobal e i p s =
     (case clients_get s p of
        Some partnerLocal \<Rightarrow> createRoom (uuid e) i partnerLocal s
      | None \<Rightarrow>
          (let s3 = modify i (\<lambda>c. c\<lparr>partnerId := Some p, roomId := Some (uuid e),
                                     isAvailable := False\<rparr>) s;
               s4 = sendToClient i (Matched (uuid e) p) s3;
               s5 = publishSignal e p (Matched (uuid e) (ident (heap s4 i))) s4
           in suspend i (AwaitPublish (redis s5 = None \<or> storeUp e)) s5))"

text \<open>The synchronous start of \<^verbatim>\<open>handleAvailable\<close>, up to the first await or to its end.\<close>

definition handleAvailable :: "env \<Rightarrow> cid \<Rightarrow> server \<Rightarrow> server" where
  "handleAvailable e i s =
     (if truthy (partnerId (heap s i)) then sendToClient i (Error ALREADY_PAIRED) s
      else
        let s1 = modify i (\<lambda>c. c\<lparr>isAvailable := True\<rparr>) s in
        if redis s1 \<noteq> None then tryMatchGlobal_pop e 0 i s1
        else localFallback e i s1)"

text \<open>
  \<^verbatim>\<open>handleAvailable\<close> for client \<open>i\<close> continuing after an await, with the reply in hand, up to
  its next await or to its end. A rejection is caught and leads to the local code. In
  \<^verbatim>\<open>tryMatchGlobal\<close> an empty reply returns \<^verbatim>\<open>null\<close>, another id is returned, and the own id
  is pushed back; after the push the loop goes on while \<^verbatim>\<open>i + 1 < 5\<close>.
\<close>

fun resume :: "env \<Rightarrow> cid \<Rightarrow> kont \<Rightarrow> server \<Rightarrow> server" where
  "resume e i (AwaitPop n None) s = localFallback e i s"
| "resume e i (AwaitPop n (Some None)) s = enqueueGlobal e i s"
| "resume e i (AwaitPop n (Some (Some p))) s =
     (if p = [] then enqueueGlobal e i s
      else if p \<noteq> ident (heap s i) then matchedGlobal e i p s
      else (let (ok, s1) = redis_lpush e p s in suspend i (AwaitPushBack n ok) s1))"
| "resume e i (AwaitPushBack n ok) s =
     (if \<not> ok then localFallback e i s
      else if n + 1 < 5 then tryMatchGlobal_pop e (n + 1) i s
      else enqueueGlobal e i s)"
| "resume e i (AwaitEnqueue ok) s = (if ok then s else localFallback e i s)"
| "resume e i (AwaitPublish ok) s = (if ok then s else localFallback e i s)"

text \<open>The reply to the oldest awaited command arrives and its call continues.\<close>

definition onReply :: "env \<Rightarrow> server \<Rightarrow> server" where
  "onReply e s =
     (case pending s of
        [] \<Rightarrow> s
      | (i, k) # rest \<Rightarrow> resume e i k (s\<lparr>pending := rest\<rparr>))"

section \<open>Relay\<close>

definition relayToPartner :: "env \<Rightarrow> cid \<Rightarrow> out_msg \<Rightarrow> server \<Rightarrow> bool \<times> server" where
  "relayToPartner e p payload s =
     (case clients_get s p of
        Some partner \<Rightarrow> (True, sendToClient partner payload s)
      | None \<Rightarrow> (if redis s \<noteq> None then (True, publishSignal e p payload s) else (False, s)))"

definition handleOffer :: "env \<Rightarrow> string \<Rightarrow> cid \<Rightarrow> server \<Rightarrow> server" where
  "handleOffer e sdp i s =
     (if \<not> truthy (partnerId (heap s i)) then sendToClient i (Error NOT_PAIRED) s
      else snd (relayToPartner e (the (partnerId (heap s i))) (OfferFrom (ident (heap s i)) sdp) s))"

definition handleAnswer :: "env \<Rightarrow> string \<Rightarrow> cid \<Rightarrow> server \<Rightarrow> server" where
  "handleAnswer e sdp i s =
     (if \<not> truthy (partnerId (heap s i)) then sendToClient i (Error NOT_PAIRED) s
      else snd (relayToPartner e (the (partnerId (heap s i))) (AnswerFrom (ident (heap s i)) sdp) s))"

definition handleIce :: "env \<Rightarrow> string \<Rightarrow> cid \<Rightarrow> server \<Rightarrow> server" where
  "handleIce e candidate i s =
     (if \<not> truthy (partnerId (heap s i)) then sendToClient i (Error NOT_PAIRED) s
      else snd (relayToPartner e (the (partnerId (heap s i))) (IceFrom (ident (heap s i)) candidate) s))"

section \<open>Teardown\<close>

text \<open>
  The block that \<^verbatim>\<open>handleNext\<close>, \<^verbatim>\<open>handleLeave\<close> and \<^verbatim>\<open>handleClientDisconnect\<close> each repeat
  for the partner: notify it, and when it is registered here clear its pairing and, under
  \<^verbatim>\<open>REQUEUE_ON_PARTNER_LEAVE\<close>, flag it available and enqueue it (in Redis when configured,
  where a rejected \<^verbatim>\<open>lpush\<close> is swallowed; in the local queue otherwise).
\<close>

definition releasePartner :: "env \<Rightarrow> cid \<Rightarrow> server \<Rightarrow> server" where
  "releasePartner e p s =
     (let s1 = snd (relayToPartner e p PartnerLeft s) in
      case clients_get s1 p of
        None \<Rightarrow> s1
      | Some partner \<Rightarrow>
          (let s2 = modify partner (\<lambda>c. c\<lparr>partnerId := None, roomId := None\<rparr>) s1 in
           if REQUEUE_ON_PARTNER_LEAVE s2 then
             (let s3 = modify partner (\<lambda>c. c\<lparr>isAvailable := True\<rparr>) s2 in
              case redis s3 of
                Some l \<Rightarrow> (if storeUp e then s3\<lparr>redis := Some (lpush (ident (heap s3 partner)) l)\<rparr>
                           else s3)
              | None \<Rightarrow> queuePush (ident (heap s3 partner)) s3)
           else s2))"

definition resetClient :: "cid \<Rightarrow> server \<Rightarrow> server" where
  "resetClient i s =
     (let s1 = modify i (\<lambda>c. c\<lparr>partnerId := None, roomId := None, isAvailable := False\<rparr>) s
      in s1\<lparr>waitingQueue := queueRemove (ident (heap s1 i)) (waitingQueue s1)\<rparr>)"

definition handleNext :: "env \<Rightarrow> cid \<Rightarrow> server \<Rightarrow> server" where
  "handleNext e i s =
     (if \<not> truthy (partnerId (heap s i)) then sendToClient i (Error NOT_PAIRED) s
      else resetClient i (releasePartner e (the (partnerId (heap s i))) s))"

definition handleLeave :: "env \<Rightarrow> cid \<Rightarrow> server \<Rightarrow> server" where
  "handleLeave e i s =
     (let s1 = (if truthy (partnerId (heap s i))
                then releasePartner e (the (partnerId (heap s i))) s else s)
      in resetClient i s1)"

definition handleClientDisconnect :: "env \<Rightarrow> cid \<Rightarrow> server \<Rightarrow> server" where
  "handleClientDisconnect e i s =
     (let s1 = (if truthy (partnerId (heap s i))
                then releasePartner e (the (partnerId (heap s i))) s else s);
          s2 = s1\<lparr>waitingQueue := queueRemove (ident (heap s1 i)) (waitingQueue s1)\<rparr>
      in clients_delete (ident (heap s2 i)) s2)"

section \<open>Dispatch\<close>

definition handleAuth :: "env \<Rightarrow> string option \<Rightarrow> cid \<Rightarrow> server \<Rightarrow> server" where
  "handleAuth e u i s =
     modify i (\<lambda>c. c\<lparr>userId := (if truthy u then u else None), lastSeen := Some (now e)\<rparr>) s"

definition handleMessage :: "env \<Rightarrow> cid \<Rightarrow> in_msg \<Rightarrow> server \<Rightarrow> server" where
  "handleMessage e i m s =
     (case m of
        Auth u \<Rightarrow> handleAuth e u i s
      | Available \<Rightarrow> handleAvailable e i s
      | Offer sdp \<Rightarrow> handleOffer e sdp i s
      | Answer sdp \<Rightarrow> handleAnswer e sdp i s
      | Ice candidate \<Rightarrow> handleIce e candidate i s
      | Next \<Rightarrow> handleNext e i s
      | Leave \<Rightarrow> handleLeave e i s
      | Ping \<Rightarrow> sendToClient i Pong s
      | Other t \<Rightarrow> sendToClient i (Error UNKNOWN_TYPE) s)"

text \<open>The \<^verbatim>\<open>ws.on('message')\<close> callback: rate limiter, \<^verbatim>\<open>JSON.parse\<close>, dispatch.\<close>

definition onMessage :: "env \<Rightarrow> cid \<Rightarrow> raw \<Rightarrow> server \<Rightarrow> server" where
  "onMessage e i r s =
     (case rateLimitOK e i s of
        (False, s1) \<Rightarrow> sendToClient i (Error RATE_LIMIT) s1
      | (True, s1) \<Rightarrow>
          (case r of
             Malformed \<Rightarrow> sendToClient i (Error INVALID_FORMAT) s1
           | Json m \<Rightarrow> handleMessage e i m s1))"

text \<open>The \<^verbatim>\<open>wss.on('connection')\<close> callback for an accepted origin; \<open>i\<close> is the new UUID.\<close>

definition newClient :: "cid \<Rightarrow> client" where
  "newClient i = \<lparr>ident = i, wsOpen = True, userId = None, partnerId = None, roomId = None,
                  isAvailable = False, rate_ts = 0, rate_count = 0, lastSeen = None\<rparr>"

definition onConnection :: "cid \<Rightarrow> server \<Rightarrow> server" where
  "onConnection i s = sendToClient i (Ready i) (clients_set i (newClient i) s)"

text \<open>The \<^verbatim>\<open>redisSub.on('message')\<close> callback for a well-formed envelope.\<close>

definition onBusMessage :: "cid \<Rightarrow> out_msg \<Rightarrow> server \<Rightarrow> server" where
  "onBusMessage targetId payload s =
     (case clients_get s targetId of Some c \<Rightarrow> sendToClient c payload s | None \<Rightarrow> s)"

section \<open>Runs of the server\<close>

text \<open>
  One event is one callback, or one continuation of \<^verbatim>\<open>handleAvailable\<close>, run to its next
  await or to its end. \<open>Connect\<close> is a connection whose origin was accepted. \<open>Close\<close> is
  the \<^verbatim>\<open>close\<close> or the \<^verbatim>\<open>error\<close> callback of a socket, also when the heartbeat has
  terminated it; both call \<^verbatim>\<open>handleClientDisconnect\<close> on the same client object. \<open>Closing\<close>
  is the transport leaving the \<^verbatim>\<open>OPEN\<close> state before its \<^verbatim>\<open>close\<close> callback runs. \<open>Bus\<close> is
  an envelope arriving on the Redis channel. \<open>Resume\<close> is the reply to the oldest awaited
  Redis command.
\<close>

datatype event =
    Connect cid
  | Message cid env raw
  | Close cid env
  | Closing cid
  | Bus cid out_msg
  | Resume env

fun step :: "server \<Rightarrow> event \<Rightarrow> server" where
  "step s (Connect i) = onConnection i s"
| "step s (Message i e r) = onMessage e i r s"
| "step s (Close i e) = handleClientDisconnect e i s"
| "step s (Closing i) = modify i (\<lambda>c. c\<lparr>wsOpen := False\<rparr>) s"
| "step s (Bus t m) = onBusMessage t m s"
| "step s (Resume e) = onReply e s"

text \<open>
  When an event can occur. A new UUID is non-empty and was never used. Messages come from
  registered connections. A socket emits \<^verbatim>\<open>error\<close> and then \<^verbatim>\<open>close\<close>, so the disconnect
  callback can run for any client object that exists, registered or already removed. A
  reply arrives only when a call is waiting.
\<close>

fun enabled :: "server \<Rightarrow> event \<Rightarrow> bool" where
  "enabled s (Connect i) = (i \<noteq> [] \<and> i \<notin> set (clients s) \<and> ident (heap s i) \<noteq> i)"
| "enabled s (Message i e r) = (i \<in> set (clients s))"
| "enabled s (Close i e) = (i \<noteq> [] \<and> ident (heap s i) = i)"
| "enabled s (Closing i) = (i \<in> set (clients s))"
| "enabled s (Bus t m) = True"
| "enabled s (Resume e) = (pending s \<noteq> [])"

fun run :: "server \<Rightarrow> event list \<Rightarrow> server" where
  "run s [] = s"
| "run s (ev # evs) = run (step s ev) evs"

fun feasible :: "server \<Rightarrow> event list \<Rightarrow> bool" where
  "feasible s [] = True"
| "feasible s (ev # evs) = (enabled s ev \<and> feasible (step s ev) evs)"

definition init :: "bool \<Rightarrow> int \<Rightarrow> cid list option \<Rightarrow> server" where
  "init requeue maxMsg store =
     \<lparr>REQUEUE_ON_PARTNER_LEAVE = requeue, MAX_MSG_PER_SECOND = maxMsg, clients = [],
      heap = (\<lambda>i. newClient []), waitingQueue = [], redis = store, sent = [], published = [],
      pending = []\<rparr>"

text \<open>Runs in which the disconnect callback runs only for connections still registered.\<close>

fun registered_closes :: "server \<Rightarrow> event list \<Rightarrow> bool" where
  "registered_closes s [] = True"
| "registered_closes s (ev # evs) =
     ((case ev of Close i e \<Rightarrow> i \<in> set (clients s) | _ \<Rightarrow> True)
      \<and> registered_closes (step s ev) evs)"

section \<open>The invariants the specification names\<close>

definition symmetric :: "server \<Rightarrow> bool" where
  "symmetric s =
     (\<forall>k \<in> set (clients s).
        case partnerId (heap s k) of
          None \<Rightarrow> True
        | Some p \<Rightarrow> p \<in> set (clients s) \<and> partnerId (heap s p) = Some k)"

definition exclusive :: "server \<Rightarrow> bool" where
  "exclusive s =
     (\<forall>k \<in> set (clients s). \<not> (isAvailable (heap s k) \<and> partnerId (heap s k) \<noteq> None))"

definition registry_ok :: "server \<Rightarrow> bool" where
  "registry_ok s =
     (distinct (clients s) \<and> (\<forall>k \<in> set (clients s). k \<noteq> [] \<and> ident (heap s k) = k))"

text \<open>Local-only mode: no Redis store is configured, and so no call is ever suspended.\<close>

definition local_inv :: "server \<Rightarrow> bool" where
  "local_inv s =
     (redis s = None \<and> pending s = [] \<and> registry_ok s \<and> symmetric s \<and> exclusive s)"

text \<open>
  What holds of every client object in either mode: a flagged object has no partner, and
  no partner id is the empty string. \<open>sound\<close> adds that registered and suspended clients
  are objects that exist.
\<close>

definition good :: "client \<Rightarrow> bool" where
  "good c = ((isAvailable c \<longrightarrow> partnerId c = None) \<and> partnerId c \<noteq> Some [])"

definition all_good :: "server \<Rightarrow> bool" where
  "all_good s = (\<forall>k. good (heap s k))"

definition sound :: "server \<Rightarrow> bool" where
  "sound s =
     (registry_ok s \<and> all_good s
      \<and> (\<forall>i \<in> fst ` set (pending s). i \<noteq> [] \<and> ident (heap s i) = i))"

section \<open>Sample runs\<close>

text \<open>Concrete environments, traces and states on which the theorems below are instantiated.\<close>

definition env1 :: "string \<Rightarrow> env" where
  "env1 r = \<lparr>now = 2000, uuid = r, storeUp = True\<rparr>"

definition replies :: "nat \<Rightarrow> string \<Rightarrow> event list" where
  "replies n r = replicate n (Resume (env1 r))"

definition s_idle :: server where
  "s_idle = run (init True 40 None) [Connect ''A'', Connect ''B'']"

definition s_waiting :: server where
  "s_waiting = run (init True 40 None)
     [Connect ''A'', Message ''A'' (env1 ''r1'') (Json Available)]"

definition s_paired :: server where
  "s_paired = run (init True 40 None)
     [Connect ''A'', Connect ''B'',
      Message ''A'' (env1 ''r1'') (Json Available),
      Message ''B'' (env1 ''r2'') (Json Available)]"

definition tr_local :: "event list" where
  "tr_local =
     [Connect ''A'', Connect ''B'', Connect ''C'', Connect ''D'',
      Message ''A'' (env1 ''r1'') (Json Available),
      Message ''B'' (env1 ''r2'') (Json Available),
      Message ''C'' (env1 ''r3'') (Json Available),
      Message ''D'' (env1 ''r4'') (Json Available),
      Message ''A'' (env1 ''r5'') (Json Next),
      Close ''A'' (env1 ''r6'')]"

text \<open>Distributed mode, with a second \<^verbatim>\<open>close\<close> callback for \<open>A\<close> at the end.\<close>

definition tr_global :: "event list" where
  "tr_global =
     [Connect ''A'', Connect ''B'',
      Message ''A'' (env1 ''r1'') (Json Available)] @ replies 2 ''r1'' @
     [Message ''B'' (env1 ''r2'') (Json Available)] @ replies 1 ''r2'' @
     [Close ''A'' (env1 ''r3''), Close ''A'' (env1 ''r4'')]"

text \<open>Distributed mode: \<open>A\<close> declares itself available twice.\<close>

definition tr_twice :: "event list" where
  "tr_twice =
     [Connect ''A'',
      Message ''A'' (env1 ''r1'') (Json Available)] @ replies 2 ''r1'' @
     [Message ''A'' (env1 ''r2'') (Json Available)] @ replies 11 ''r2''"

text \<open>Distributed mode: after that, \<open>B\<close> and then \<open>C\<close> declare themselves available.\<close>

definition tr_stale :: "event list" where
  "tr_stale =
     [Connect ''A'', Connect ''B'', Connect ''C'',
      Message ''A'' (env1 ''r1'') (Json Available)] @ replies 2 ''r1'' @
     [Message ''A'' (env1 ''r2'') (Json Available)] @ replies 11 ''r2'' @
     [Message ''B'' (env1 ''r3'') (Json Available)] @ replies 1 ''r3'' @
     [Message ''C'' (env1 ''r4'') (Json Available)] @ replies 1 ''r4''"

text \<open>Distributed mode: as before up to \<open>B\<close>, who is about to be paired with \<open>A\<close>.\<close>

definition tr_popped :: "event list" where
  "tr_popped =
     [Connect ''A'', Connect ''B'',
      Message ''A'' (env1 ''r1'') (Json Available)] @ replies 2 ''r1'' @
     [Message ''A'' (env1 ''r2'') (Json Available)] @ replies 11 ''r2'' @
     [Message ''B'' (env1 ''r3'') (Json Available)]"

text \<open>Local-only mode: the socket of \<open>A\<close> emits \<^verbatim>\<open>error\<close> and, after \<open>C\<close> was matched, \<^verbatim>\<open>close\<close>.\<close>

definition tr_error_close :: "event list" where
  "tr_error_close =
     [Connect ''A'', Connect ''B'', Connect ''C'',
      Message ''A'' (env1 ''r1'') (Json Available),
      Message ''B'' (env1 ''r2'') (Json Available),
      Close ''A'' (env1 ''r3''),
      Message ''C'' (env1 ''r4'') (Json Available),
      Close ''A'' (env1 ''r5'')]"

definition s_one_waiting :: server where
  "s_one_waiting = run (init True 40 None)
     [Connect ''A'', Connect ''B'', Message ''A'' (env1 ''r1'') (Json Available)]"



text \<open>
  Local-only mode: \<open>D\<close> connects before \<open>B\<close>; \<open>B\<close> declares itself available before \<open>D\<close>
  and, when both have lost their partners, is requeued before \<open>D\<close>.
\<close>

definition tr_requeue :: "event list" where
  "tr_requeue =
     [Connect ''D'', Connect ''B'', Connect ''A'', Connect ''C'', Connect ''E'',
      Message ''A'' (env1 ''r1'') (Json Available),
      Message ''B'' (env1 ''r2'') (Json Available),
      Message ''C'' (env1 ''r3'') (Json Available),
      Message ''D'' (env1 ''r4'') (Json Available),
      Message ''A'' (env1 ''r5'') (Json Next),
      Message ''C'' (env1 ''r6'') (Json Next)]"

definition s_requeued :: server where
  "s_requeued = run (init True 40 None) tr_requeue"

section \<open>Feeding one connection a burst of messages\<close>

text \<open>
  The \<^verbatim>\<open>message\<close> callback run on a list of inputs of one connection; the first component
  collects the verdicts of \<^verbatim>\<open>rateLimitOK\<close>.
\<close>

fun feed :: "cid \<Rightarrow> (env \<times> raw) list \<Rightarrow> server \<Rightarrow> bool list \<times> server" where
  "feed i [] s = ([], s)"
| "feed i ((e, r) # ms) s =
     (let (oks, s') = feed i ms (onMessage e i r s) in (fst (rateLimitOK e i s) # oks, s'))"

definition burst :: "nat \<Rightarrow> (env \<times> raw) list" where
  "burst n = replicate n (env1 ''r'', Json Ping)"

definition s_busy :: server where
  "s_busy = snd (feed ''A'' (burst 40) s_idle)"

section \<open>Queue removal\<close>

lemma indexOf_notin: "x \<notin> set q \<Longrightarrow> indexOf q x = - 1"
  by (induction q) (auto simp: Let_def)

lemma indexOf_in: "x \<in> set q \<Longrightarrow> 0 \<le> indexOf q x \<and> nat (indexOf q x) < length q"
  by (induction q) (auto simp: Let_def)

lemma queueRemove_remove1: "queueRemove x q = remove1 x q"
proof (induction q)
  case Nil
  show ?case by (simp add: queueRemove_def)
next
  case (Cons y ys)
  show ?case
  proof (cases "y = x")
    case True
    then show ?thesis by (simp add: queueRemove_def splice1_def)
  next
    case False
    show ?thesis
    proof (cases "x \<in> set ys")
      case True
      with False Cons indexOf_in[OF True] show ?thesis
        by (simp add: queueRemove_def splice1_def Let_def nat_add_distrib)
    next
      case False
      with \<open>y \<noteq> x\<close> indexOf_notin[OF False] show ?thesis
        by (simp add: queueRemove_def Let_def remove1_idem)
    qed
  qed
qed

lemma filter_remove1_other: "filter (\<lambda>y. y \<noteq> x) (remove1 x q) = filter (\<lambda>y. y \<noteq> x) q"
  by (induction q) auto

text \<open>
  Claim C9. Removing an id that is not in the queue changes nothing; removing the same id
  twice leaves the entries for every other id in their order; and on a queue without
  duplicates, which is what the local queue always is, the second removal is a no-op.
\<close>

theorem queue_removal_idempotent:
  "(x \<notin> set q \<longrightarrow> queueRemove x q = q)
   \<and> filter (\<lambda>y. y \<noteq> x) (queueRemove x (queueRemove x q)) = filter (\<lambda>y. y \<noteq> x) q
   \<and> (distinct q \<longrightarrow> queueRemove x (queueRemove x q) = queueRemove x q)"
  by (simp add: queueRemove_remove1 remove1_idem filter_remove1_other)

theorem queue_removal_idempotent_witness:
  "''B'' \<notin> set [''A'', ''C''] \<and> distinct [''A'', ''B'', ''C'']
   \<and> queueRemove ''B'' [''A'', ''C''] = [''A'', ''C'']
   \<and> queueRemove ''B'' (queueRemove ''B'' [''A'', ''B'', ''C'']) = queueRemove ''B'' [''A'', ''B'', ''C'']"
proof -
  have h1: "''B'' \<notin> set [''A'', ''C'']" by simp
  have h2: "distinct [''A'', ''B'', ''C'']" by simp
  show ?thesis
    using h1 h2 queue_removal_idempotent[of "''B''" "[''A'', ''C'']"]
      queue_removal_idempotent[of "''B''" "[''A'', ''B'', ''C'']"]
    by blast
qed

section \<open>Field projections of the primitives\<close>

lemma modify_fields [simp]:
  "heap (modify i f s) = (heap s)(i := f (heap s i))"
  "clients (modify i f s) = clients s"
  "waitingQueue (modify i f s) = waitingQueue s"
  "redis (modify i f s) = redis s"
  "sent (modify i f s) = sent s"
  "published (modify i f s) = published s"
  "pending (modify i f s) = pending s"
  "REQUEUE_ON_PARTNER_LEAVE (modify i f s) = REQUEUE_ON_PARTNER_LEAVE s"
  "MAX_MSG_PER_SECOND (modify i f s) = MAX_MSG_PER_SECOND s"
  by (simp_all add: modify_def)

lemma sendToClient_fields [simp]:
  "heap (sendToClient i m s) = heap s"
  "clients (sendToClient i m s) = clients s"
  "waitingQueue (sendToClient i m s) = waitingQueue s"
  "redis (sendToClient i m s) = redis s"
  "published (sendToClient i m s) = published s"
  "pending (sendToClient i m s) = pending s"
  "REQUEUE_ON_PARTNER_LEAVE (sendToClient i m s) = REQUEUE_ON_PARTNER_LEAVE s"
  "MAX_MSG_PER_SECOND (sendToClient i m s) = MAX_MSG_PER_SECOND s"
  "sent (sendToClient i m s) = sent s @ (if wsOpen (heap s i) then [(i, m)] else [])"
  by (simp_all add: sendToClient_def)

lemma queuePush_fields [simp]:
  "heap (queuePush x s) = heap s"
  "clients (queuePush x s) = clients s"
  "redis (queuePush x s) = redis s"
  "sent (queuePush x s) = sent s"
  "published (queuePush x s) = published s"
  "pending (queuePush x s) = pending s"
  "REQUEUE_ON_PARTNER_LEAVE (queuePush x s) = REQUEUE_ON_PARTNER_LEAVE s"
  "MAX_MSG_PER_SECOND (queuePush x s) = MAX_MSG_PER_SECOND s"
  "waitingQueue (queuePush x s) = (if x \<in> set (waitingQueue s) then waitingQueue s else waitingQueue s @ [x])"
  by (simp_all add: queuePush_def)

lemma publishSignal_fields [simp]:
  "heap (publishSignal e p m s) = heap s"
  "clients (publishSignal e p m s) = clients s"
  "waitingQueue (publishSignal e p m s) = waitingQueue s"
  "redis (publishSignal e p m s) = redis s"
  "sent (publishSignal e p m s) = sent s"
  "pending (publishSignal e p m s) = pending s"
  "REQUEUE_ON_PARTNER_LEAVE (publishSignal e p m s) = REQUEUE_ON_PARTNER_LEAVE s"
  "MAX_MSG_PER_SECOND (publishSignal e p m s) = MAX_MSG_PER_SECOND s"
  by (simp_all add: publishSignal_def)

lemma sendToClient_eq: "sendToClient i m s = s\<lparr>sent := sent s @ (if wsOpen (heap s i) then [(i, m)] else [])\<rparr>"
  by (simp add: sendToClient_def)

lemma truthy_None [simp]: "\<not> truthy None"
  by (simp add: truthy_def)

lemma truthy_Some [simp]: "truthy (Some x) = (x \<noteq> [])"
  by (simp add: truthy_def)

section \<open>Requests made in the wrong state\<close>

text \<open>
  Claim C7. An \<^verbatim>\<open>offer\<close>, \<^verbatim>\<open>answer\<close> or \<^verbatim>\<open>ice\<close> from a connection without a partner
  changes nothing but the log of written messages, where the sender, if its socket is open,
  gets \<^verbatim>\<open>NOT_PAIRED\<close>: nothing is relayed or published and no record changes.
\<close>

theorem relay_unpaired_not_paired:
  assumes "partnerId (heap s i) = None" and "m \<in> {Offer x, Answer x, Ice x}"
  shows "handleMessage e i m s
         = s\<lparr>sent := sent s @ (if wsOpen (heap s i) then [(i, Error NOT_PAIRED)] else [])\<rparr>"
  using assms
  by (auto simp: handleMessage_def handleOffer_def handleAnswer_def handleIce_def sendToClient_eq)

theorem relay_unpaired_not_paired_witness:
  "partnerId (heap s_idle ''A'') = None \<and> wsOpen (heap s_idle ''A'')
   \<and> handleMessage (env1 ''r'') ''A'' (Ice ''candidate'') s_idle
       = s_idle\<lparr>sent := sent s_idle @ [(''A'', Error NOT_PAIRED)]\<rparr>"
proof -
  have h: "partnerId (heap s_idle ''A'') = None" by code_simp
  have w: "wsOpen (heap s_idle ''A'')" by code_simp
  have m: "Ice ''candidate'' \<in> {Offer ''candidate'', Answer ''candidate'', Ice ''candidate''}"
    by simp
  show ?thesis
    using h w relay_unpaired_not_paired[OF h m, of "env1 ''r''"] by simp
qed

text \<open>
  Claim C8. \<^verbatim>\<open>available\<close> from a connection that has a partner changes nothing but the
  log of written messages, where the sender, if its socket is open, gets
  \<^verbatim>\<open>ALREADY_PAIRED\<close>.
\<close>

theorem available_paired_already_paired:
  assumes "truthy (partnerId (heap s i))"
  shows "handleMessage e i Available s
         = s\<lparr>sent := sent s @ (if wsOpen (heap s i) then [(i, Error ALREADY_PAIRED)] else [])\<rparr>"
  using assms by (simp add: handleMessage_def handleAvailable_def sendToClient_eq)

theorem available_paired_already_paired_witness:
  "truthy (partnerId (heap s_paired ''A'')) \<and> wsOpen (heap s_paired ''A'')
   \<and> handleMessage (env1 ''r'') ''A'' Available s_paired
       = s_paired\<lparr>sent := sent s_paired @ [(''A'', Error ALREADY_PAIRED)]\<rparr>"
proof -
  have h: "truthy (partnerId (heap s_paired ''A''))" by code_simp
  have w: "wsOpen (heap s_paired ''A'')" by code_simp
  show ?thesis
    using h w available_paired_already_paired[OF h, of "env1 ''r''"] by simp
qed

text \<open>
  Claim C3, as the code has it. \<^verbatim>\<open>next\<close> from a connection without a partner changes
  nothing but the log of written messages, where the sender, if its socket is open, gets
  \<^verbatim>\<open>NOT_PAIRED\<close>. \<^verbatim>\<open>leave\<close> from such a connection writes no message: it clears the
  caller's own \<^verbatim>\<open>isAvailable\<close> and \<^verbatim>\<open>roomId\<close> and takes its id out of the local waiting
  queue, and changes no other connection's record.
\<close>

theorem next_leave_unpaired:
  assumes "partnerId (heap s i) = None"
  shows "handleMessage e i Next s
           = s\<lparr>sent := sent s @ (if wsOpen (heap s i) then [(i, Error NOT_PAIRED)] else [])\<rparr>
       \<and> handleMessage e i Leave s
           = s\<lparr>heap := (heap s)(i := (heap s i)\<lparr>partnerId := None, roomId := None, isAvailable := False\<rparr>),
               waitingQueue := remove1 (ident (heap s i)) (waitingQueue s)\<rparr>"
  using assms
  by (simp add: handleMessage_def handleNext_def handleLeave_def resetClient_def sendToClient_eq
      queueRemove_remove1 modify_def)

theorem next_leave_unpaired_witness:
  "partnerId (heap s_waiting ''A'') = None
   \<and> handleMessage (env1 ''r'') ''A'' Next s_waiting
       = s_waiting\<lparr>sent := sent s_waiting
            @ (if wsOpen (heap s_waiting ''A'') then [(''A'', Error NOT_PAIRED)] else [])\<rparr>
   \<and> handleMessage (env1 ''r'') ''A'' Leave s_waiting
       = s_waiting\<lparr>heap := (heap s_waiting)(''A'' := (heap s_waiting ''A'')
                      \<lparr>partnerId := None, roomId := None, isAvailable := False\<rparr>),
                   waitingQueue := remove1 (ident (heap s_waiting ''A'')) (waitingQueue s_waiting)\<rparr>"
proof -
  have h: "partnerId (heap s_waiting ''A'') = None" by code_simp
  show ?thesis
    using h next_leave_unpaired[OF h, of "env1 ''r''"] by blast
qed

text \<open>
  The claim as written fails for \<^verbatim>\<open>leave\<close>: a waiting connection that leaves gets no
  error, loses its \<^verbatim>\<open>isAvailable\<close> flag and is taken out of the queue.
\<close>

theorem leave_unpaired_counterexample:
  "partnerId (heap s_waiting ''A'') = None
   \<and> isAvailable (heap s_waiting ''A'')
   \<and> waitingQueue s_waiting = [''A'']
   \<and> sent (handleMessage (env1 ''r'') ''A'' Leave s_waiting) = sent s_waiting
   \<and> \<not> isAvailable (heap (handleMessage (env1 ''r'') ''A'' Leave s_waiting) ''A'')
   \<and> waitingQueue (handleMessage (env1 ''r'') ''A'' Leave s_waiting) = []"
  by code_simp

section \<open>The pairing invariant in local-only mode\<close>

subsection \<open>Shapes of the state changes\<close>

text \<open>A change that touches neither the registry, the store flag nor any pairing field.\<close>

lemma local_inv_paired_registered:
  assumes "local_inv s" "k \<in> set (clients s)" "partnerId (heap s k) = Some p"
  shows "p \<in> set (clients s) \<and> partnerId (heap s p) = Some k \<and> p \<noteq> []"
proof -
  from assms(1) have "symmetric s" by (simp add: local_inv_def)
  then have "case partnerId (heap s k) of None \<Rightarrow> True
             | Some p \<Rightarrow> p \<in> set (clients s) \<and> partnerId (heap s p) = Some k"
    using assms(2) unfolding symmetric_def by (rule bspec)
  then have p: "p \<in> set (clients s) \<and> partnerId (heap s p) = Some k"
    using assms(3) by simp
  moreover from assms(1) p have "p \<noteq> []" by (simp add: local_inv_def registry_ok_def)
  ultimately show ?thesis by simp
qed

lemma local_inv_same:
  assumes inv: "local_inv s" and cl: "clients s' = clients s" and rd: "redis s' = redis s"
    and pid: "\<And>k. partnerId (heap s' k) = partnerId (heap s k)"
    and idt: "\<And>k. ident (heap s' k) = ident (heap s k)"
    and av: "\<And>k. k \<in> set (clients s) \<Longrightarrow> isAvailable (heap s' k)
               \<Longrightarrow> isAvailable (heap s k) \<or> partnerId (heap s k) = None"
    and pd: "pending s' = pending s"
  shows "local_inv s'"
  unfolding local_inv_def
proof (intro conjI)
  show "redis s' = None" using inv rd by (simp add: local_inv_def)
  show "pending s' = []" using inv pd by (simp add: local_inv_def)
  show "registry_ok s'"
    using inv cl idt by (simp add: local_inv_def registry_ok_def)
  show "symmetric s'"
    unfolding symmetric_def
  proof
    fix k assume "k \<in> set (clients s')"
    then have k: "k \<in> set (clients s)" using cl by simp
    show "case partnerId (heap s' k) of None \<Rightarrow> True
          | Some p \<Rightarrow> p \<in> set (clients s') \<and> partnerId (heap s' p) = Some k"
    proof (cases "partnerId (heap s k)")
      case None
      then show ?thesis by (simp add: pid)
    next
      case (Some p)
      from local_inv_paired_registered[OF inv k Some] Some show ?thesis
        by (simp add: pid cl)
    qed
  qed
  show "exclusive s'"
    unfolding exclusive_def
  proof
    fix k assume "k \<in> set (clients s')"
    then have k: "k \<in> set (clients s)" using cl by simp
    have "isAvailable (heap s k) \<Longrightarrow> partnerId (heap s k) = None"
      using inv k by (auto simp: local_inv_def exclusive_def)
    then show "\<not> (isAvailable (heap s' k) \<and> partnerId (heap s' k) \<noteq> None)"
      using av[OF k] pid[of k] by auto
  qed
qed

lemma local_inv_truthy:
  assumes "local_inv s" "k \<in> set (clients s)"
  shows "truthy (partnerId (heap s k)) = (partnerId (heap s k) \<noteq> None)"
  using local_inv_paired_registered[OF assms] by (cases "partnerId (heap s k)") auto

lemma local_inv_ident:
  "local_inv s \<Longrightarrow> k \<in> set (clients s) \<Longrightarrow> ident (heap s k) = k \<and> k \<noteq> []"
  by (simp add: local_inv_def registry_ok_def)

lemma local_inv_excl:
  "local_inv s \<Longrightarrow> k \<in> set (clients s) \<Longrightarrow> isAvailable (heap s k) \<Longrightarrow> partnerId (heap s k) = None"
  by (auto simp: local_inv_def exclusive_def)

lemma local_inv_pair:
  assumes inv: "local_inv s" and cl: "clients s' = clients s" and rd: "redis s' = redis s"
    and a: "a \<in> set (clients s)" and b: "b \<in> set (clients s)" and ab: "a \<noteq> b"
    and pa: "partnerId (heap s a) = None" and pb: "partnerId (heap s b) = None"
    and pa': "partnerId (heap s' a) = Some b" and pb': "partnerId (heap s' b) = Some a"
    and av: "\<not> isAvailable (heap s' a)" "\<not> isAvailable (heap s' b)"
    and idt: "ident (heap s' a) = a" "ident (heap s' b) = b"
    and frame: "\<And>k. k \<noteq> a \<Longrightarrow> k \<noteq> b \<Longrightarrow> heap s' k = heap s k"
    and pd: "pending s' = pending s"
  shows "local_inv s'"
  unfolding local_inv_def
proof (intro conjI)
  show "redis s' = None" using inv rd by (simp add: local_inv_def)
  show "pending s' = []" using inv pd by (simp add: local_inv_def)
  show "registry_ok s'"
    unfolding registry_ok_def
  proof (intro conjI ballI)
    show "distinct (clients s')" using inv cl by (simp add: local_inv_def registry_ok_def)
    fix k assume "k \<in> set (clients s')"
    then have k: "k \<in> set (clients s)" using cl by simp
    show "k \<noteq> []" using local_inv_ident[OF inv k] by simp
    show "ident (heap s' k) = k"
      using local_inv_ident[OF inv k] idt frame[of k] by (cases "k = a"; cases "k = b"; simp)
  qed
  show "exclusive s'"
    unfolding exclusive_def
  proof
    fix k assume "k \<in> set (clients s')"
    then have k: "k \<in> set (clients s)" using cl by simp
    show "\<not> (isAvailable (heap s' k) \<and> partnerId (heap s' k) \<noteq> None)"
      using local_inv_excl[OF inv k] av frame[of k] by (cases "k = a"; cases "k = b"; auto)
  qed
  show "symmetric s'"
    unfolding symmetric_def
  proof
    fix k assume "k \<in> set (clients s')"
    then have k: "k \<in> set (clients s)" using cl by simp
    show "case partnerId (heap s' k) of None \<Rightarrow> True
          | Some p \<Rightarrow> p \<in> set (clients s') \<and> partnerId (heap s' p) = Some k"
    proof (cases "k = a \<or> k = b")
      case True
      then show ?thesis using a b cl pa' pb' by auto
    next
      case False
      then have same: "heap s' k = heap s k" using frame by simp
      show ?thesis
      proof (cases "partnerId (heap s k)")
        case None
        then show ?thesis using same by simp
      next
        case (Some p)
        from local_inv_paired_registered[OF inv k Some]
        have p: "p \<in> set (clients s)" "partnerId (heap s p) = Some k" by auto
        with pa pb have "p \<noteq> a" "p \<noteq> b" by auto
        then have "heap s' p = heap s p" using frame by simp
        then show ?thesis using Some same p cl by simp
      qed
    qed
  qed
qed

text \<open>Dissolving the pair \<open>a\<close>, \<open>b\<close>; \<open>a\<close> may leave the registry.\<close>

lemma local_inv_unpair:
  assumes inv: "local_inv s" and rd: "redis s' = redis s"
    and a: "a \<in> set (clients s)" and pa: "partnerId (heap s a) = Some b"
    and cl: "clients s' = clients s \<or> clients s' = removeAll a (clients s)"
    and pa': "partnerId (heap s' a) = None \<or> a \<notin> set (clients s')"
    and pb': "partnerId (heap s' b) = None"
    and av: "\<not> isAvailable (heap s' a) \<or> a \<notin> set (clients s')"
    and idt: "ident (heap s' a) = a" "ident (heap s' b) = b"
    and frame: "\<And>k. k \<noteq> a \<Longrightarrow> k \<noteq> b \<Longrightarrow> heap s' k = heap s k"
    and pd: "pending s' = pending s"
  shows "local_inv s'"
  unfolding local_inv_def
proof (intro conjI)
  have sub: "\<And>k. k \<in> set (clients s') \<Longrightarrow> k \<in> set (clients s)" using cl by auto
  have b: "b \<in> set (clients s)" "partnerId (heap s b) = Some a"
    using local_inv_paired_registered[OF inv a pa] by auto
  show "redis s' = None" using inv rd by (simp add: local_inv_def)
  show "pending s' = []" using inv pd by (simp add: local_inv_def)
  show "registry_ok s'"
    unfolding registry_ok_def
  proof (intro conjI ballI)
    have "distinct (clients s)" using inv by (simp add: local_inv_def registry_ok_def)
    then show "distinct (clients s')" using cl by (auto simp: distinct_removeAll)
    fix k assume "k \<in> set (clients s')"
    then have k: "k \<in> set (clients s)" using sub by simp
    show "k \<noteq> []" using local_inv_ident[OF inv k] by simp
    show "ident (heap s' k) = k"
      using local_inv_ident[OF inv k] idt frame[of k] by (cases "k = a"; cases "k = b"; simp)
  qed
  show "exclusive s'"
    unfolding exclusive_def
  proof
    fix k assume k': "k \<in> set (clients s')"
    then have k: "k \<in> set (clients s)" using sub by simp
    show "\<not> (isAvailable (heap s' k) \<and> partnerId (heap s' k) \<noteq> None)"
      using local_inv_excl[OF inv k] av pb' frame[of k] k' by (cases "k = a"; cases "k = b"; auto)
  qed
  show "symmetric s'"
    unfolding symmetric_def
  proof
    fix k assume k': "k \<in> set (clients s')"
    then have k: "k \<in> set (clients s)" using sub by auto
    show "case partnerId (heap s' k) of None \<Rightarrow> True
          | Some p \<Rightarrow> p \<in> set (clients s') \<and> partnerId (heap s' p) = Some k"
    proof (cases "k = a \<or> k = b")
      case True
      then show ?thesis using pa' pb' k' by auto
    next
      case False
      then have same: "heap s' k = heap s k" using frame by simp
      show ?thesis
      proof (cases "partnerId (heap s k)")
        case None
        then show ?thesis using same by simp
      next
        case (Some p)
        from local_inv_paired_registered[OF inv k Some]
        have p: "p \<in> set (clients s)" "partnerId (heap s p) = Some k" by auto
        with pa b False have pn: "p \<noteq> a" "p \<noteq> b" by auto
        then have "heap s' p = heap s p" using frame by simp
        moreover have "p \<in> set (clients s')" using cl p pn by auto
        ultimately show ?thesis using Some same p by simp
      qed
    qed
  qed
qed

subsection \<open>What the handlers change\<close>

lemma createRoom_fields:
  "clients (createRoom r a b s) = clients s"
  "redis (createRoom r a b s) = redis s"
  "published (createRoom r a b s) = published s"
  "pending (createRoom r a b s) = pending s"
  "REQUEUE_ON_PARTNER_LEAVE (createRoom r a b s) = REQUEUE_ON_PARTNER_LEAVE s"
  "MAX_MSG_PER_SECOND (createRoom r a b s) = MAX_MSG_PER_SECOND s"
  by (simp_all add: createRoom_def Let_def)

lemma createRoom_heap:
  "a \<noteq> b \<Longrightarrow> heap (createRoom r a b s) =
     (heap s)(a := (heap s a)\<lparr>partnerId := Some (ident (heap s b)), roomId := Some r, isAvailable := False\<rparr>,
              b := (heap s b)\<lparr>partnerId := Some (ident (heap s a)), roomId := Some r, isAvailable := False\<rparr>)"
  by (simp add: createRoom_def Let_def)

lemma createRoom_queue:
  "a \<noteq> b \<Longrightarrow> waitingQueue (createRoom r a b s) =
     remove1 (ident (heap s b)) (remove1 (ident (heap s a)) (waitingQueue s))"
  by (simp add: createRoom_def Let_def queueRemove_remove1)

lemma createRoom_sent:
  "a \<noteq> b \<Longrightarrow> sent (createRoom r a b s) =
     sent s @ (if wsOpen (heap s a) then [(a, Matched r (ident (heap s b)))] else [])
            @ (if wsOpen (heap s b) then [(b, Matched r (ident (heap s a)))] else [])"
  by (simp add: createRoom_def Let_def)

lemma findAvailablePartner_Some:
  assumes "findAvailablePartner x s = Some p"
  shows "p \<in> set (clients s) \<and> p \<noteq> x \<and> isAvailable (heap s p) \<and> \<not> truthy (partnerId (heap s p))"
  using assms unfolding findAvailablePartner_def
  by (auto simp: find_Some_iff)

lemma relayToPartner_fields [simp]:
  "heap (snd (relayToPartner e p m s)) = heap s"
  "clients (snd (relayToPartner e p m s)) = clients s"
  "waitingQueue (snd (relayToPartner e p m s)) = waitingQueue s"
  "redis (snd (relayToPartner e p m s)) = redis s"
  "pending (snd (relayToPartner e p m s)) = pending s"
  "REQUEUE_ON_PARTNER_LEAVE (snd (relayToPartner e p m s)) = REQUEUE_ON_PARTNER_LEAVE s"
  "MAX_MSG_PER_SECOND (snd (relayToPartner e p m s)) = MAX_MSG_PER_SECOND s"
  by (simp_all add: relayToPartner_def clients_get_def)

lemma releasePartner_fields:
  "clients (releasePartner e p s) = clients s"
  "pending (releasePartner e p s) = pending s"
  "REQUEUE_ON_PARTNER_LEAVE (releasePartner e p s) = REQUEUE_ON_PARTNER_LEAVE s"
  "MAX_MSG_PER_SECOND (releasePartner e p s) = MAX_MSG_PER_SECOND s"
  "redis s = None \<Longrightarrow> redis (releasePartner e p s) = None"
  "k \<noteq> p \<Longrightarrow> heap (releasePartner e p s) k = heap s k"
  "ident (heap (releasePartner e p s) k) = ident (heap s k)"
  "p \<in> set (clients s) \<Longrightarrow> partnerId (heap (releasePartner e p s) p) = None"
  by (simp_all add: releasePartner_def Let_def clients_get_def split: option.splits)

lemma resetClient_fields:
  "clients (resetClient i s) = clients s"
  "pending (resetClient i s) = pending s"
  "redis (resetClient i s) = redis s"
  "sent (resetClient i s) = sent s"
  "published (resetClient i s) = published s"
  "REQUEUE_ON_PARTNER_LEAVE (resetClient i s) = REQUEUE_ON_PARTNER_LEAVE s"
  "MAX_MSG_PER_SECOND (resetClient i s) = MAX_MSG_PER_SECOND s"
  "heap (resetClient i s) = (heap s)(i := (heap s i)\<lparr>partnerId := None, roomId := None, isAvailable := False\<rparr>)"
  "waitingQueue (resetClient i s) = remove1 (ident (heap s i)) (waitingQueue s)"
  by (simp_all add: resetClient_def Let_def queueRemove_remove1)

subsection \<open>Each callback keeps the pairing invariant in local-only mode\<close>

lemma local_inv_sent:
  assumes "local_inv s"
  shows "local_inv (sendToClient i m s)"
  by (rule local_inv_same[OF assms]) simp_all

lemma local_inv_localFallback:
  assumes inv: "local_inv s" and i: "i \<in> set (clients s)" and pi: "partnerId (heap s i) = None"
  shows "local_inv (localFallback e i (modify i (\<lambda>c. c\<lparr>isAvailable := True\<rparr>) s))"
proof -
  have idi: "ident (heap s i) = i" using local_inv_ident[OF inv i] by simp
  let ?s1 = "modify i (\<lambda>c. c\<lparr>isAvailable := True\<rparr>) s"
  show ?thesis
  proof (cases "findAvailablePartner i ?s1")
    case None
    then have eq: "localFallback e i ?s1 = queuePush i ?s1"
      using idi by (simp add: localFallback_def)
    show ?thesis unfolding eq
      by (rule local_inv_same[OF inv]) (auto simp: pi split: if_splits)
  next
    case (Some p)
    then have eq: "localFallback e i ?s1 = createRoom (uuid e) i p ?s1"
      using idi by (simp add: localFallback_def)
    from findAvailablePartner_Some[OF Some]
    have p: "p \<in> set (clients s)" "p \<noteq> i" "\<not> truthy (partnerId (heap s p))"
      by (auto split: if_splits)
    then have pp: "partnerId (heap s p) = None" using local_inv_truthy[OF inv p(1)] by simp
    have idp: "ident (heap s p) = p" using local_inv_ident[OF inv p(1)] by simp
    show ?thesis unfolding eq
      by (rule local_inv_pair[OF inv _ _ i p(1) p(2)[symmetric] pi pp])
         (use p(2) idi idp in \<open>simp_all add: createRoom_fields createRoom_heap\<close>)
  qed
qed

lemma local_inv_handleAvailable:
  assumes inv: "local_inv s" and i: "i \<in> set (clients s)"
  shows "local_inv (handleAvailable e i s)"
proof (cases "truthy (partnerId (heap s i))")
  case True
  then show ?thesis by (simp add: handleAvailable_def local_inv_sent[OF inv])
next
  case False
  then have pi: "partnerId (heap s i) = None" using local_inv_truthy[OF inv i] by simp
  have rd: "redis s = None" using inv by (simp add: local_inv_def)
  show ?thesis
    using False rd local_inv_localFallback[OF inv i pi]
    by (simp add: handleAvailable_def Let_def)
qed

lemma local_inv_relay:
  assumes "local_inv s"
  shows "local_inv (snd (relayToPartner e p m s))"
  by (rule local_inv_same[OF assms]) simp_all

lemma local_inv_resetClient_unpaired:
  assumes inv: "local_inv s" and pi: "partnerId (heap s i) = None"
  shows "local_inv (resetClient i s)"
  by (rule local_inv_same[OF inv]) (auto simp: resetClient_fields pi split: if_splits)

lemma local_inv_release_reset:
  assumes inv: "local_inv s" and i: "i \<in> set (clients s)" and pi: "partnerId (heap s i) = Some p"
  shows "local_inv (resetClient i (releasePartner e p s))"
proof -
  have rd: "redis s = None" using inv by (simp add: local_inv_def)
  have p: "p \<in> set (clients s)" using local_inv_paired_registered[OF inv i pi] by simp
  have idi: "ident (heap s i) = i" using local_inv_ident[OF inv i] by simp
  have idp: "ident (heap s p) = p" using local_inv_ident[OF inv p] by simp
  show ?thesis
    by (rule local_inv_unpair[OF inv _ i pi])
       (use rd p idi idp in \<open>simp_all add: resetClient_fields releasePartner_fields\<close>)
qed

lemma local_inv_handleNext:
  assumes inv: "local_inv s" and i: "i \<in> set (clients s)"
  shows "local_inv (handleNext e i s)"
proof (cases "partnerId (heap s i)")
  case None
  then show ?thesis by (simp add: handleNext_def local_inv_sent[OF inv])
next
  case (Some p)
  then have "truthy (partnerId (heap s i))" using local_inv_truthy[OF inv i] by simp
  then show ?thesis using local_inv_release_reset[OF inv i Some] Some
    by (simp add: handleNext_def)
qed

lemma local_inv_handleLeave:
  assumes inv: "local_inv s" and i: "i \<in> set (clients s)"
  shows "local_inv (handleLeave e i s)"
proof (cases "partnerId (heap s i)")
  case None
  then show ?thesis by (simp add: handleLeave_def local_inv_resetClient_unpaired[OF inv])
next
  case (Some p)
  then have "truthy (partnerId (heap s i))" using local_inv_truthy[OF inv i] by simp
  then show ?thesis using local_inv_release_reset[OF inv i Some] Some
    by (simp add: handleLeave_def)
qed

lemma local_inv_handleMessage:
  assumes inv: "local_inv s" and i: "i \<in> set (clients s)"
  shows "local_inv (handleMessage e i m s)"
proof (cases m)
  case (Auth u)
  have "local_inv (handleAuth e u i s)"
    unfolding handleAuth_def by (rule local_inv_same[OF inv]) (auto split: if_splits)
  then show ?thesis using Auth by (simp add: handleMessage_def)
next
  case Available
  then show ?thesis using local_inv_handleAvailable[OF inv i] by (simp add: handleMessage_def)
next
  case (Offer x)
  then show ?thesis using local_inv_sent[OF inv] local_inv_relay[OF inv]
    by (simp add: handleMessage_def handleOffer_def)
next
  case (Answer x)
  then show ?thesis using local_inv_sent[OF inv] local_inv_relay[OF inv]
    by (simp add: handleMessage_def handleAnswer_def)
next
  case (Ice x)
  then show ?thesis using local_inv_sent[OF inv] local_inv_relay[OF inv]
    by (simp add: handleMessage_def handleIce_def)
next
  case Next
  then show ?thesis using local_inv_handleNext[OF inv i] by (simp add: handleMessage_def)
next
  case Leave
  then show ?thesis using local_inv_handleLeave[OF inv i] by (simp add: handleMessage_def)
next
  case Ping
  then show ?thesis using local_inv_sent[OF inv] by (simp add: handleMessage_def)
next
  case (Other t)
  then show ?thesis using local_inv_sent[OF inv] by (simp add: handleMessage_def)
qed

lemma rateLimitOK_fields [simp]:
  "clients (snd (rateLimitOK e i s)) = clients s"
  "waitingQueue (snd (rateLimitOK e i s)) = waitingQueue s"
  "redis (snd (rateLimitOK e i s)) = redis s"
  "sent (snd (rateLimitOK e i s)) = sent s"
  "published (snd (rateLimitOK e i s)) = published s"
  "pending (snd (rateLimitOK e i s)) = pending s"
  "REQUEUE_ON_PARTNER_LEAVE (snd (rateLimitOK e i s)) = REQUEUE_ON_PARTNER_LEAVE s"
  "MAX_MSG_PER_SECOND (snd (rateLimitOK e i s)) = MAX_MSG_PER_SECOND s"
  "partnerId (heap (snd (rateLimitOK e i s)) k) = partnerId (heap s k)"
  "ident (heap (snd (rateLimitOK e i s)) k) = ident (heap s k)"
  "isAvailable (heap (snd (rateLimitOK e i s)) k) = isAvailable (heap s k)"
  "wsOpen (heap (snd (rateLimitOK e i s)) k) = wsOpen (heap s k)"
  "roomId (heap (snd (rateLimitOK e i s)) k) = roomId (heap s k)"
  by (simp_all add: rateLimitOK_def Let_def)

lemma local_inv_rateLimitOK:
  assumes "local_inv s"
  shows "local_inv (snd (rateLimitOK e i s))"
  by (rule local_inv_same[OF assms]) simp_all

lemma onMessage_eq:
  "onMessage e i r s =
     (let s1 = snd (rateLimitOK e i s) in
      if \<not> fst (rateLimitOK e i s) then sendToClient i (Error RATE_LIMIT) s1
      else case r of Malformed \<Rightarrow> sendToClient i (Error INVALID_FORMAT) s1
                   | Json m \<Rightarrow> handleMessage e i m s1)"
  by (cases "rateLimitOK e i s") (auto simp: onMessage_def)

lemma local_inv_onMessage:
  assumes inv: "local_inv s" and i: "i \<in> set (clients s)"
  shows "local_inv (onMessage e i r s)"
proof -
  let ?s1 = "snd (rateLimitOK e i s)"
  have inv1: "local_inv ?s1" by (rule local_inv_rateLimitOK[OF inv])
  have i1: "i \<in> set (clients ?s1)" using i by simp
  show ?thesis
    using local_inv_sent[OF inv1] local_inv_handleMessage[OF inv1 i1]
    by (simp add: onMessage_eq Let_def split: raw.splits)
qed

lemma local_inv_onConnection:
  assumes inv: "local_inv s" and i: "i \<notin> set (clients s)" "i \<noteq> []"
  shows "local_inv (onConnection i s)"
proof -
  let ?s' = "onConnection i s"
  have cl: "clients ?s' = clients s @ [i]" and rd: "redis ?s' = redis s"
    and hp: "heap ?s' = (heap s)(i := newClient i)"
    using i by (simp_all add: onConnection_def clients_set_def)
  have old: "\<And>k. k \<in> set (clients s) \<Longrightarrow> heap ?s' k = heap s k"
    using i hp by auto
  have new: "partnerId (heap ?s' i) = None" "ident (heap ?s' i) = i" "\<not> isAvailable (heap ?s' i)"
    using hp by (simp_all add: newClient_def)
  show ?thesis
    unfolding local_inv_def
  proof (intro conjI)
    show "redis ?s' = None" using inv rd by (simp add: local_inv_def)
    show "pending ?s' = []"
      using inv by (simp add: local_inv_def onConnection_def clients_set_def)
    show "registry_ok ?s'"
      unfolding registry_ok_def
    proof (intro conjI ballI)
      show "distinct (clients ?s')" using inv i cl by (simp add: local_inv_def registry_ok_def)
      fix k assume "k \<in> set (clients ?s')"
      then have "k = i \<or> k \<in> set (clients s)" using cl by auto
      then show "k \<noteq> []" "ident (heap ?s' k) = k"
        using i new old local_inv_ident[OF inv] by auto
    qed
    show "exclusive ?s'"
      unfolding exclusive_def
    proof
      fix k assume "k \<in> set (clients ?s')"
      then have "k = i \<or> k \<in> set (clients s)" using cl by auto
      then show "\<not> (isAvailable (heap ?s' k) \<and> partnerId (heap ?s' k) \<noteq> None)"
        using new old local_inv_excl[OF inv] by auto
    qed
    show "symmetric ?s'"
      unfolding symmetric_def
    proof
      fix k assume "k \<in> set (clients ?s')"
      then have "k = i \<or> k \<in> set (clients s)" using cl by auto
      then show "case partnerId (heap ?s' k) of None \<Rightarrow> True
          | Some p \<Rightarrow> p \<in> set (clients ?s') \<and> partnerId (heap ?s' p) = Some k"
      proof
        assume "k = i"
        then show ?thesis using new by simp
      next
        assume k: "k \<in> set (clients s)"
        show ?thesis
        proof (cases "partnerId (heap s k)")
          case None
          then show ?thesis using old[OF k] by simp
        next
          case (Some p)
          from local_inv_paired_registered[OF inv k Some] Some old[OF k] old[of p] cl
          show ?thesis by simp
        qed
      qed
    qed
  qed
qed

text \<open>Removing an unpaired connection from the registry.\<close>

lemma local_inv_delete:
  assumes inv: "local_inv s" and pi: "partnerId (heap s i) = None" and i: "i \<in> set (clients s)"
    and cl: "clients s' = removeAll i (clients s)" and rd: "redis s' = redis s"
    and hp: "heap s' = heap s" and pd: "pending s' = pending s"
  shows "local_inv s'"
  unfolding local_inv_def
proof (intro conjI)
  show "redis s' = None" using inv rd by (simp add: local_inv_def)
  show "pending s' = []" using inv pd by (simp add: local_inv_def)
  show "registry_ok s'"
    using inv cl hp by (simp add: local_inv_def registry_ok_def distinct_removeAll)
  show "exclusive s'"
    using inv cl hp by (simp add: local_inv_def exclusive_def)
  show "symmetric s'"
    unfolding symmetric_def
  proof
    fix k assume "k \<in> set (clients s')"
    then have k: "k \<in> set (clients s)" "k \<noteq> i" using cl by auto
    show "case partnerId (heap s' k) of None \<Rightarrow> True
          | Some p \<Rightarrow> p \<in> set (clients s') \<and> partnerId (heap s' p) = Some k"
    proof (cases "partnerId (heap s k)")
      case None
      then show ?thesis using hp by simp
    next
      case (Some p)
      from local_inv_paired_registered[OF inv k(1) Some]
      have p: "p \<in> set (clients s)" "partnerId (heap s p) = Some k" by auto
      with pi have "p \<noteq> i" by auto
      then show ?thesis using Some p hp cl by simp
    qed
  qed
qed

lemma local_inv_handleClientDisconnect:
  assumes inv: "local_inv s" and i: "i \<in> set (clients s)"
  shows "local_inv (handleClientDisconnect e i s)"
proof (cases "partnerId (heap s i)")
  case None
  show ?thesis
    by (rule local_inv_delete[OF inv None i])
       (use None local_inv_ident[OF inv i] in \<open>simp_all add: handleClientDisconnect_def clients_delete_def\<close>)
next
  case (Some p)
  then have t: "truthy (partnerId (heap s i))" using local_inv_truthy[OF inv i] by simp
  have rd: "redis s = None" using inv by (simp add: local_inv_def)
  have p: "p \<in> set (clients s)" using local_inv_paired_registered[OF inv i Some] by simp
  have idi: "ident (heap s i) = i" using local_inv_ident[OF inv i] by simp
  have idp: "ident (heap s p) = p" using local_inv_ident[OF inv p] by simp
  have pp: "partnerId (heap (releasePartner e p s) p) = None"
    using p by (simp add: releasePartner_fields)
  show ?thesis
    by (rule local_inv_unpair[OF inv _ i Some])
       (use t Some rd p idi idp pp in
         \<open>simp_all add: handleClientDisconnect_def clients_delete_def Let_def releasePartner_fields\<close>)
qed

lemma local_inv_step:
  assumes inv: "local_inv s" and en: "enabled s ev"
    and reg: "case ev of Close i e \<Rightarrow> i \<in> set (clients s) | _ \<Rightarrow> True"
  shows "local_inv (step s ev)"
proof (cases ev)
  case (Connect i)
  then show ?thesis using local_inv_onConnection[OF inv] en by simp
next
  case (Message i e r)
  then show ?thesis using local_inv_onMessage[OF inv] en by simp
next
  case (Close i e)
  then show ?thesis using local_inv_handleClientDisconnect[OF inv] reg by simp
next
  case (Closing i)
  have "local_inv (modify i (\<lambda>c. c\<lparr>wsOpen := False\<rparr>) s)"
    by (rule local_inv_same[OF inv]) (auto split: if_splits)
  then show ?thesis using Closing by simp
next
  case (Bus t m)
  then show ?thesis using local_inv_sent[OF inv] inv
    by (simp add: onBusMessage_def clients_get_def)
next
  case (Resume e)
  then show ?thesis using inv by (simp add: onReply_def local_inv_def)
qed

lemma local_inv_run:
  "local_inv s \<Longrightarrow> feasible s evs \<Longrightarrow> registered_closes s evs \<Longrightarrow> local_inv (run s evs)"
  by (induction evs arbitrary: s) (simp_all add: local_inv_step)

lemma local_inv_init: "local_inv (init requeue maxMsg None)"
  by (simp add: local_inv_def init_def registry_ok_def symmetric_def exclusive_def)

section \<open>Exclusivity in either mode\<close>

subsection \<open>Registry, identities and suspended calls\<close>

lemma suspend_fields [simp]:
  "heap (suspend i k s) = heap s"
  "clients (suspend i k s) = clients s"
  "waitingQueue (suspend i k s) = waitingQueue s"
  "redis (suspend i k s) = redis s"
  "sent (suspend i k s) = sent s"
  "published (suspend i k s) = published s"
  "REQUEUE_ON_PARTNER_LEAVE (suspend i k s) = REQUEUE_ON_PARTNER_LEAVE s"
  "MAX_MSG_PER_SECOND (suspend i k s) = MAX_MSG_PER_SECOND s"
  "pending (suspend i k s) = pending s @ [(i, k)]"
  by (simp_all add: suspend_def)

lemma redis_rpop_fields [simp]:
  "heap (snd (redis_rpop e s)) = heap s"
  "clients (snd (redis_rpop e s)) = clients s"
  "waitingQueue (snd (redis_rpop e s)) = waitingQueue s"
  "sent (snd (redis_rpop e s)) = sent s"
  "published (snd (redis_rpop e s)) = published s"
  "pending (snd (redis_rpop e s)) = pending s"
  "REQUEUE_ON_PARTNER_LEAVE (snd (redis_rpop e s)) = REQUEUE_ON_PARTNER_LEAVE s"
  "MAX_MSG_PER_SECOND (snd (redis_rpop e s)) = MAX_MSG_PER_SECOND s"
  by (simp_all add: redis_rpop_def split: option.splits)

lemma redis_lpush_fields [simp]:
  "heap (snd (redis_lpush e x s)) = heap s"
  "clients (snd (redis_lpush e x s)) = clients s"
  "waitingQueue (snd (redis_lpush e x s)) = waitingQueue s"
  "sent (snd (redis_lpush e x s)) = sent s"
  "published (snd (redis_lpush e x s)) = published s"
  "pending (snd (redis_lpush e x s)) = pending s"
  "REQUEUE_ON_PARTNER_LEAVE (snd (redis_lpush e x s)) = REQUEUE_ON_PARTNER_LEAVE s"
  "MAX_MSG_PER_SECOND (snd (redis_lpush e x s)) = MAX_MSG_PER_SECOND s"
  by (simp_all add: redis_lpush_def split: option.splits)

lemma tryMatchGlobal_pop_fields [simp]:
  "heap (tryMatchGlobal_pop e n i s) = heap s"
  "clients (tryMatchGlobal_pop e n i s) = clients s"
  "waitingQueue (tryMatchGlobal_pop e n i s) = waitingQueue s"
  "sent (tryMatchGlobal_pop e n i s) = sent s"
  "published (tryMatchGlobal_pop e n i s) = published s"
  "REQUEUE_ON_PARTNER_LEAVE (tryMatchGlobal_pop e n i s) = REQUEUE_ON_PARTNER_LEAVE s"
  "MAX_MSG_PER_SECOND (tryMatchGlobal_pop e n i s) = MAX_MSG_PER_SECOND s"
  "pending (tryMatchGlobal_pop e n i s) = pending s @ [(i, AwaitPop n (fst (redis_rpop e s)))]"
  by (simp_all add: tryMatchGlobal_pop_def split_beta)

lemma enqueueGlobal_fields [simp]:
  "heap (enqueueGlobal e i s) = heap s"
  "clients (enqueueGlobal e i s) = clients s"
  "waitingQueue (enqueueGlobal e i s) = waitingQueue s"
  "sent (enqueueGlobal e i s) = sent s"
  "published (enqueueGlobal e i s) = published s"
  "REQUEUE_ON_PARTNER_LEAVE (enqueueGlobal e i s) = REQUEUE_ON_PARTNER_LEAVE s"
  "MAX_MSG_PER_SECOND (enqueueGlobal e i s) = MAX_MSG_PER_SECOND s"
  "pending (enqueueGlobal e i s)
     = pending s @ [(i, AwaitEnqueue (fst (redis_lpush e (ident (heap s i)) s)))]"
  by (simp_all add: enqueueGlobal_def split_beta)

lemma createRoom_ident [simp]:
  "ident (heap (createRoom r a b s) k) = ident (heap s k)"
  by (simp add: createRoom_def Let_def)

lemma localFallback_frame [simp]:
  "clients (localFallback e i s) = clients s"
  "pending (localFallback e i s) = pending s"
  "ident (heap (localFallback e i s) k) = ident (heap s k)"
  "REQUEUE_ON_PARTNER_LEAVE (localFallback e i s) = REQUEUE_ON_PARTNER_LEAVE s"
  "MAX_MSG_PER_SECOND (localFallback e i s) = MAX_MSG_PER_SECOND s"
  by (simp_all add: localFallback_def createRoom_fields split: option.splits)

lemma matchedGlobal_frame [simp]:
  "clients (matchedGlobal e i p s) = clients s"
  "ident (heap (matchedGlobal e i p s) k) = ident (heap s k)"
  "fst ` set (pending (matchedGlobal e i p s)) \<subseteq> insert i (fst ` set (pending s))"
  "REQUEUE_ON_PARTNER_LEAVE (matchedGlobal e i p s) = REQUEUE_ON_PARTNER_LEAVE s"
  "MAX_MSG_PER_SECOND (matchedGlobal e i p s) = MAX_MSG_PER_SECOND s"
  by (auto simp: matchedGlobal_def Let_def createRoom_fields split: option.splits)

lemma handleAvailable_frame [simp]:
  "clients (handleAvailable e i s) = clients s"
  "ident (heap (handleAvailable e i s) k) = ident (heap s k)"
  "fst ` set (pending (handleAvailable e i s)) \<subseteq> insert i (fst ` set (pending s))"
  "REQUEUE_ON_PARTNER_LEAVE (handleAvailable e i s) = REQUEUE_ON_PARTNER_LEAVE s"
  "MAX_MSG_PER_SECOND (handleAvailable e i s) = MAX_MSG_PER_SECOND s"
  by (auto simp: handleAvailable_def Let_def)

lemma resume_frame [simp]:
  "clients (resume e i k s) = clients s"
  "ident (heap (resume e i k s) j) = ident (heap s j)"
  "REQUEUE_ON_PARTNER_LEAVE (resume e i k s) = REQUEUE_ON_PARTNER_LEAVE s"
  "MAX_MSG_PER_SECOND (resume e i k s) = MAX_MSG_PER_SECOND s"
  by (induction e i k s rule: resume.induct; simp add: split_beta)+

lemma resume_owners:
  "fst ` set (pending (resume e i k s)) \<subseteq> insert i (fst ` set (pending s))"
proof (induction e i k s rule: resume.induct)
  case (3 e i n p s)
  show ?case using matchedGlobal_frame(3)[of e i p s] by (auto simp: split_beta)
qed (auto simp: split_beta)

lemma handleMessage_frame [simp]:
  "clients (handleMessage e i m s) = clients s"
  "ident (heap (handleMessage e i m s) k) = ident (heap s k)"
  by (cases m;
      simp add: handleMessage_def handleAuth_def handleOffer_def handleAnswer_def handleIce_def
        handleNext_def handleLeave_def resetClient_fields releasePartner_fields)+

lemma handleMessage_owners:
  "fst ` set (pending (handleMessage e i m s)) \<subseteq> insert i (fst ` set (pending s))"
proof (cases m)
  case Available
  then show ?thesis using handleAvailable_frame(3)[of e i s] by (simp add: handleMessage_def)
qed (auto simp: handleMessage_def handleAuth_def handleOffer_def handleAnswer_def handleIce_def
        handleNext_def handleLeave_def resetClient_fields releasePartner_fields)

subsection \<open>Every write leaves a good object\<close>

lemma all_good_heap: "heap s' = heap s \<Longrightarrow> all_good s' = all_good s"
  by (simp add: all_good_def)

lemma all_good_modify:
  "all_good s \<Longrightarrow> good (f (heap s i)) \<Longrightarrow> all_good (modify i f s)"
  by (simp add: all_good_def)

lemma all_good_createRoom:
  assumes "all_good s" and "ident (heap s a) \<noteq> []" and "ident (heap s b) \<noteq> []"
  shows "all_good (createRoom r a b s)"
  using assms by (simp add: all_good_def createRoom_def Let_def good_def)

lemma all_good_localFallback:
  assumes ok: "registry_ok s" and g: "all_good s" and i: "ident (heap s i) \<noteq> []"
  shows "all_good (localFallback e i s)"
proof (cases "findAvailablePartner (ident (heap s i)) s")
  case None
  then show ?thesis using g by (simp add: localFallback_def all_good_heap[of "queuePush _ _" s])
next
  case (Some p)
  from findAvailablePartner_Some[OF Some] have "p \<in> set (clients s)" by simp
  then have "ident (heap s p) \<noteq> []" using ok by (simp add: registry_ok_def)
  then show ?thesis using Some g i by (simp add: localFallback_def all_good_createRoom)
qed

lemma all_good_matchedGlobal:
  assumes ok: "registry_ok s" and g: "all_good s" and i: "ident (heap s i) \<noteq> []" and p: "p \<noteq> []"
  shows "all_good (matchedGlobal e i p s)"
proof (cases "p \<in> set (clients s)")
  case True
  then have "ident (heap s p) \<noteq> []" using ok by (simp add: registry_ok_def)
  then show ?thesis using True g i
    by (simp add: matchedGlobal_def clients_get_def all_good_createRoom)
next
  case False
  then show ?thesis using g p
    by (simp add: matchedGlobal_def clients_get_def Let_def all_good_def good_def)
qed

lemma all_good_handleAvailable:
  assumes ok: "registry_ok s" and g: "all_good s" and i: "ident (heap s i) \<noteq> []"
  shows "all_good (handleAvailable e i s)"
proof (cases "truthy (partnerId (heap s i))")
  case True
  then show ?thesis using g
    by (simp add: handleAvailable_def all_good_heap[of "sendToClient _ _ _" s])
next
  case False
  have "good (heap s i)" using g by (simp add: all_good_def)
  then have pi: "partnerId (heap s i) = None"
    using False by (cases "partnerId (heap s i)") (auto simp: good_def)
  let ?s1 = "modify i (\<lambda>c. c\<lparr>isAvailable := True\<rparr>) s"
  have g1: "all_good ?s1" using g pi by (simp add: all_good_modify good_def)
  have ok1: "registry_ok ?s1" using ok by (simp add: registry_ok_def)
  have i1: "ident (heap ?s1 i) \<noteq> []" using i by simp
  show ?thesis
    using False g1 all_good_localFallback[OF ok1 g1 i1]
    by (simp add: handleAvailable_def Let_def all_good_heap[of "tryMatchGlobal_pop _ _ _ _" ?s1])
qed

lemma all_good_resume:
  assumes ok: "registry_ok s" and g: "all_good s" and i: "ident (heap s i) \<noteq> []"
  shows "all_good (resume e i k s)"
  using assms
proof (induction e i k s rule: resume.induct)
  case (3 e i n p s)
  then show ?case
    by (simp add: all_good_matchedGlobal split_beta
        all_good_heap[of "enqueueGlobal _ _ _" s] all_good_heap[of "suspend _ _ _" "snd (redis_lpush _ _ s)"]
        all_good_heap[of "snd (redis_lpush _ _ s)" s])
qed (simp_all add: all_good_localFallback all_good_heap[of "enqueueGlobal _ _ _"]
       all_good_heap[of "tryMatchGlobal_pop _ _ _ _"])

lemma all_good_releasePartner:
  "all_good s \<Longrightarrow> all_good (releasePartner e p s)"
  by (simp add: all_good_def releasePartner_def Let_def clients_get_def queuePush_def
      relayToPartner_def good_def split: option.splits)

lemma all_good_resetClient:
  "all_good s \<Longrightarrow> all_good (resetClient i s)"
  by (simp add: all_good_def resetClient_fields good_def)

lemma all_good_handleMessage:
  assumes ok: "registry_ok s" and g: "all_good s" and i: "ident (heap s i) \<noteq> []"
  shows "all_good (handleMessage e i m s)"
proof (cases m)
  case (Auth u)
  then show ?thesis using g
    by (simp add: handleMessage_def handleAuth_def all_good_def good_def)
next
  case Available
  then show ?thesis using all_good_handleAvailable[OF ok g i] by (simp add: handleMessage_def)
next
  case Next
  then show ?thesis using g
    by (simp add: handleMessage_def handleNext_def all_good_resetClient all_good_releasePartner
        all_good_heap[of "sendToClient _ _ _" s])
next
  case Leave
  then show ?thesis using g
    by (simp add: handleMessage_def handleLeave_def all_good_resetClient all_good_releasePartner)
qed (use g in \<open>simp_all add: handleMessage_def handleOffer_def handleAnswer_def handleIce_def
       all_good_heap[of "sendToClient _ _ _" s] all_good_heap[of "snd (relayToPartner _ _ _ _)" s]\<close>)

subsection \<open>Soundness is kept by every event that can occur\<close>

lemma soundI:
  assumes s: "sound s" and cl: "clients s' = clients s"
    and idt: "\<And>k. ident (heap s' k) = ident (heap s k)"
    and g: "all_good s'"
    and pd: "fst ` set (pending s') \<subseteq> insert i (fst ` set (pending s))"
    and i: "i \<noteq> []" "ident (heap s i) = i"
  shows "sound s'"
  unfolding sound_def
proof (intro conjI ballI)
  show "registry_ok s'" using s cl idt by (simp add: sound_def registry_ok_def)
  show "all_good s'" by (rule g)
  fix j assume "j \<in> fst ` set (pending s')"
  then have "j = i \<or> j \<in> fst ` set (pending s)" using pd by auto
  then show "j \<noteq> []" and "ident (heap s' j) = j"
    using s i idt by (auto simp: sound_def)
qed

lemma sound_registered:
  "sound s \<Longrightarrow> i \<in> set (clients s) \<Longrightarrow> i \<noteq> [] \<and> ident (heap s i) = i"
  by (simp add: sound_def registry_ok_def)

lemma sound_onMessage:
  assumes s: "sound s" and i: "i \<in> set (clients s)"
  shows "sound (onMessage e i r s)"
proof -
  let ?s1 = "snd (rateLimitOK e i s)"
  have idi: "i \<noteq> []" "ident (heap s i) = i" using sound_registered[OF s i] by simp_all
  have ok1: "registry_ok ?s1" using s by (simp add: sound_def registry_ok_def)
  have g1: "all_good ?s1"
    using s by (simp add: sound_def all_good_def rateLimitOK_def Let_def good_def)
  have i1: "ident (heap ?s1 i) \<noteq> []" using idi by simp
  have hp: "heap (onMessage e i r s) =
      (if \<not> fst (rateLimitOK e i s) then heap ?s1
       else case r of Malformed \<Rightarrow> heap ?s1 | Json m \<Rightarrow> heap (handleMessage e i m ?s1))"
    by (simp add: onMessage_eq Let_def split: raw.splits)
  show ?thesis
  proof (rule soundI[OF s _ _ _ _ idi])
    show "clients (onMessage e i r s) = clients s"
      by (simp add: onMessage_eq Let_def split: raw.splits)
    show "\<And>k. ident (heap (onMessage e i r s) k) = ident (heap s k)"
      by (simp add: onMessage_eq Let_def split: raw.splits)
    show "all_good (onMessage e i r s)"
      using g1 all_good_handleMessage[OF ok1 g1 i1]
      by (simp add: onMessage_eq Let_def all_good_heap[of "sendToClient _ _ _" ?s1]
          split: raw.splits)
    show "fst ` set (pending (onMessage e i r s)) \<subseteq> insert i (fst ` set (pending s))"
      using handleMessage_owners[of e i _ ?s1]
      by (auto simp: onMessage_eq Let_def split: raw.splits)
  qed
qed

lemma sound_onReply:
  assumes s: "sound s" and p: "pending s \<noteq> []"
  shows "sound (onReply e s)"
proof -
  from p obtain i k rest where pd: "pending s = (i, k) # rest" by (cases "pending s") auto
  let ?s0 = "s\<lparr>pending := rest\<rparr>"
  have idi: "i \<noteq> []" "ident (heap s i) = i" using s pd by (auto simp: sound_def)
  have ok0: "registry_ok ?s0" using s by (simp add: sound_def registry_ok_def)
  have g0: "all_good ?s0" using s by (simp add: sound_def all_good_def)
  have i0: "ident (heap ?s0 i) \<noteq> []" using idi by simp
  have eq: "onReply e s = resume e i k ?s0" using pd by (simp add: onReply_def)
  show ?thesis
    unfolding eq
  proof (rule soundI[OF s _ _ _ _ idi])
    show "clients (resume e i k ?s0) = clients s" by simp
    show "\<And>j. ident (heap (resume e i k ?s0) j) = ident (heap s j)" by simp
    show "all_good (resume e i k ?s0)" by (rule all_good_resume[OF ok0 g0 i0])
    show "fst ` set (pending (resume e i k ?s0)) \<subseteq> insert i (fst ` set (pending s))"
      using resume_owners[of e i k ?s0] pd by auto
  qed
qed

lemma sound_onConnection:
  assumes s: "sound s" and i: "i \<noteq> []" "i \<notin> set (clients s)" "ident (heap s i) \<noteq> i"
  shows "sound (onConnection i s)"
  unfolding sound_def
proof (intro conjI ballI)
  let ?s' = "onConnection i s"
  have cl: "clients ?s' = clients s @ [i]" and hp: "heap ?s' = (heap s)(i := newClient i)"
    and pd: "pending ?s' = pending s"
    using i by (simp_all add: onConnection_def clients_set_def)
  show "registry_ok ?s'"
    using s i cl hp by (auto simp: sound_def registry_ok_def newClient_def)
  show "all_good ?s'"
    using s hp by (simp add: sound_def all_good_def good_def newClient_def)
  fix j assume "j \<in> fst ` set (pending ?s')"
  then have j: "j \<noteq> [] \<and> ident (heap s j) = j" using s pd by (auto simp: sound_def)
  then have "j \<noteq> i" using i by auto
  then show "j \<noteq> []" and "ident (heap ?s' j) = j" using j hp by simp_all
qed

lemma sound_handleClientDisconnect:
  assumes s: "sound s"
  shows "sound (handleClientDisconnect e i s)"
  unfolding sound_def
proof (intro conjI ballI)
  let ?s' = "handleClientDisconnect e i s"
  have cl: "clients ?s' = removeAll (ident (heap s i)) (clients s)"
    and idt: "\<And>k. ident (heap ?s' k) = ident (heap s k)"
    and pd: "pending ?s' = pending s"
    by (simp_all add: handleClientDisconnect_def Let_def clients_delete_def releasePartner_fields)
  have hp: "heap ?s' = (if truthy (partnerId (heap s i))
                        then heap (releasePartner e (the (partnerId (heap s i))) s) else heap s)"
    by (simp add: handleClientDisconnect_def Let_def clients_delete_def)
  show "registry_ok ?s'"
    using s cl idt by (auto simp: sound_def registry_ok_def distinct_removeAll)
  show "all_good ?s'"
    using s all_good_releasePartner[of s e "the (partnerId (heap s i))"] hp
    by (simp add: sound_def all_good_def)
  fix j assume "j \<in> fst ` set (pending ?s')"
  then show "j \<noteq> []" and "ident (heap ?s' j) = j" using s pd idt by (auto simp: sound_def)
qed

lemma sound_heap_same:
  assumes "sound s" and "clients s' = clients s" and "pending s' = pending s"
    and "\<And>k. ident (heap s' k) = ident (heap s k)" and "all_good s'"
  shows "sound s'"
  using assms by (simp add: sound_def registry_ok_def)

lemma sound_step:
  assumes s: "sound s" and en: "enabled s ev"
  shows "sound (step s ev)"
proof (cases ev)
  case (Connect i)
  then show ?thesis using sound_onConnection[OF s] en by simp
next
  case (Message i e r)
  then show ?thesis using sound_onMessage[OF s] en by simp
next
  case (Close i e)
  then show ?thesis using sound_handleClientDisconnect[OF s] by simp
next
  case (Closing i)
  have "sound (modify i (\<lambda>c. c\<lparr>wsOpen := False\<rparr>) s)"
    by (rule sound_heap_same[OF s]) (use s in \<open>simp_all add: sound_def all_good_def good_def\<close>)
  then show ?thesis using Closing by simp
next
  case (Bus t m)
  have "sound (onBusMessage t m s)"
    by (rule sound_heap_same[OF s])
       (use s in \<open>simp_all add: onBusMessage_def sound_def all_good_def split: option.splits\<close>)
  then show ?thesis using Bus by simp
next
  case (Resume e)
  then show ?thesis using sound_onReply[OF s] en by simp
qed

lemma sound_run: "sound s \<Longrightarrow> feasible s evs \<Longrightarrow> sound (run s evs)"
  by (induction evs arbitrary: s) (simp_all add: sound_step)

lemma sound_init: "sound (init requeue maxMsg store)"
  by (simp add: sound_def init_def registry_ok_def all_good_def good_def newClient_def)

lemma sound_exclusive: "sound s \<Longrightarrow> exclusive s"
  by (auto simp: sound_def all_good_def good_def exclusive_def)

text \<open>
  Claim C1, as the code has it. After every run of callbacks that can occur, in local-only
  and in distributed mode, with any interleaving at the awaits and also when the disconnect
  callback runs twice for one connection, no registered connection is both available and
  paired. In local-only mode, after every run in which the disconnect callback runs only
  for connections still registered, every registered connection whose \<^verbatim>\<open>partnerId\<close> is
  \<open>p\<close> has \<open>p\<close> registered with \<^verbatim>\<open>partnerId\<close> pointing back.
\<close>

theorem pairing_invariant:
  "(feasible (init requeue maxMsg store) evs \<longrightarrow>
      exclusive (run (init requeue maxMsg store) evs))
 \<and> (feasible (init requeue maxMsg None) evs \<and> registered_closes (init requeue maxMsg None) evs \<longrightarrow>
      symmetric (run (init requeue maxMsg None) evs)
    \<and> exclusive (run (init requeue maxMsg None) evs))"
proof (intro conjI impI)
  assume "feasible (init requeue maxMsg store) evs"
  from sound_run[OF sound_init this] show "exclusive (run (init requeue maxMsg store) evs)"
    by (rule sound_exclusive)
next
  assume a: "feasible (init requeue maxMsg None) evs \<and> registered_closes (init requeue maxMsg None) evs"
  then have "local_inv (run (init requeue maxMsg None) evs)"
    using local_inv_run[OF local_inv_init] by simp
  then show "symmetric (run (init requeue maxMsg None) evs)"
    and "exclusive (run (init requeue maxMsg None) evs)"
    by (simp_all add: local_inv_def)
qed

theorem pairing_invariant_witness:
  "feasible (init True 40 None) tr_local \<and> registered_closes (init True 40 None) tr_local
   \<and> partnerId (heap (run (init True 40 None) tr_local) ''C'') = Some ''D''
   \<and> symmetric (run (init True 40 None) tr_local)
   \<and> exclusive (run (init True 40 None) tr_local)
   \<and> feasible (init True 40 (Some [])) tr_global
   \<and> exclusive (run (init True 40 (Some [])) tr_global)"
proof -
  have h1: "feasible (init True 40 None) tr_local" by code_simp
  have h2: "registered_closes (init True 40 None) tr_local" by code_simp
  have h3: "partnerId (heap (run (init True 40 None) tr_local) ''C'') = Some ''D''" by code_simp
  have h4: "feasible (init True 40 (Some [])) tr_global" by code_simp
  show ?thesis
    using h1 h2 h3 h4 pairing_invariant[of True 40 None tr_local]
      pairing_invariant[of True 40 "Some []" tr_global]
    by blast
qed

text \<open>
  Symmetry as claimed fails in two ways. With a Redis store, on one instance: \<open>A\<close>
  declares itself available twice and so stands twice in the Redis list; \<open>B\<close> pops it and
  is paired with \<open>A\<close>; \<open>C\<close> pops the second entry and is paired with \<open>A\<close> as well,
  which leaves \<open>B\<close> pointing at \<open>A\<close> while \<open>A\<close> points at \<open>C\<close>, with no call waiting.
  In local-only mode: the socket of \<open>A\<close>, paired with \<open>B\<close>, emits \<^verbatim>\<open>error\<close>, \<open>B\<close> is
  requeued and matched with \<open>C\<close>, and then the \<^verbatim>\<open>close\<close> callback of \<open>A\<close> runs with the
  \<^verbatim>\<open>partnerId\<close> that the removed object still holds and clears the pairing of \<open>B\<close> only.
\<close>

theorem pairing_invariant_counterexample:
  "feasible (init True 40 (Some [])) tr_stale
   \<and> pending (run (init True 40 (Some [])) tr_stale) = []
   \<and> clients (run (init True 40 (Some [])) tr_stale) = [''A'', ''B'', ''C'']
   \<and> partnerId (heap (run (init True 40 (Some [])) tr_stale) ''B'') = Some ''A''
   \<and> partnerId (heap (run (init True 40 (Some [])) tr_stale) ''A'') = Some ''C''
   \<and> \<not> symmetric (run (init True 40 (Some [])) tr_stale)
   \<and> feasible (init True 40 None) tr_error_close
   \<and> clients (run (init True 40 None) tr_error_close) = [''B'', ''C'']
   \<and> partnerId (heap (run (init True 40 None) tr_error_close) ''C'') = Some ''B''
   \<and> partnerId (heap (run (init True 40 None) tr_error_close) ''B'') = None
   \<and> \<not> symmetric (run (init True 40 None) tr_error_close)"
  by code_simp

section \<open>The local waiting queue has no duplicates\<close>

lemma distinct_queueRemove: "distinct q \<Longrightarrow> distinct (queueRemove x q)"
  by (simp add: queueRemove_remove1)

lemma distinct_queuePush:
  "distinct (waitingQueue s) \<Longrightarrow> distinct (waitingQueue (queuePush x s))"
  by simp

lemma createRoom_queue_any:
  "waitingQueue (createRoom r a b s) =
     queueRemove (ident (heap (createRoom r a b s) b))
       (queueRemove (ident (heap (createRoom r a b s) a)) (waitingQueue s))"
  by (simp add: createRoom_def Let_def)

lemma distinct_createRoom:
  "distinct (waitingQueue s) \<Longrightarrow> distinct (waitingQueue (createRoom r a b s))"
  by (subst createRoom_queue_any) (simp add: distinct_queueRemove)

lemma distinct_localFallback:
  "distinct (waitingQueue s) \<Longrightarrow> distinct (waitingQueue (localFallback e i s))"
  by (simp add: localFallback_def distinct_createRoom split: option.splits)

lemma distinct_handleAvailable:
  assumes "distinct (waitingQueue s)"
  shows "distinct (waitingQueue (handleAvailable e i s))"
  using assms by (simp add: handleAvailable_def Let_def distinct_localFallback)

lemma distinct_matchedGlobal:
  "distinct (waitingQueue s) \<Longrightarrow> distinct (waitingQueue (matchedGlobal e i p s))"
  by (simp add: matchedGlobal_def Let_def distinct_createRoom split: option.splits)

lemma distinct_resume:
  "distinct (waitingQueue s) \<Longrightarrow> distinct (waitingQueue (resume e i k s))"
  by (induction e i k s rule: resume.induct)
     (simp_all add: distinct_localFallback distinct_matchedGlobal split_beta)

lemma distinct_releasePartner:
  "distinct (waitingQueue s) \<Longrightarrow> distinct (waitingQueue (releasePartner e p s))"
  by (auto simp: releasePartner_def Let_def split: option.splits)

lemma distinct_resetClient:
  "distinct (waitingQueue s) \<Longrightarrow> distinct (waitingQueue (resetClient i s))"
  by (simp add: resetClient_fields)

lemma distinct_handleMessage:
  assumes "distinct (waitingQueue s)"
  shows "distinct (waitingQueue (handleMessage e i m s))"
  using assms
  by (cases m)
     (simp_all add: handleMessage_def handleAuth_def handleOffer_def handleAnswer_def
        handleIce_def handleNext_def handleLeave_def distinct_handleAvailable
        distinct_releasePartner distinct_resetClient)

lemma distinct_step:
  assumes "distinct (waitingQueue s)"
  shows "distinct (waitingQueue (step s ev))"
proof (cases ev)
  case (Connect i)
  then show ?thesis using assms by (simp add: onConnection_def clients_set_def)
next
  case (Message i e r)
  have "distinct (waitingQueue (snd (rateLimitOK e i s)))" using assms by simp
  then show ?thesis using Message
    by (simp add: onMessage_eq Let_def distinct_handleMessage split: raw.splits)
next
  case (Close i e)
  then show ?thesis using assms
    by (simp add: handleClientDisconnect_def Let_def clients_delete_def
        distinct_queueRemove distinct_releasePartner)
next
  case (Closing i)
  then show ?thesis using assms by simp
next
  case (Bus t m)
  then show ?thesis using assms by (simp add: onBusMessage_def split: option.splits)
next
  case (Resume e)
  then show ?thesis using assms
    by (simp add: onReply_def distinct_resume split: list.splits)
qed

lemma distinct_run:
  "distinct (waitingQueue s) \<Longrightarrow> distinct (waitingQueue (run s evs))"
  by (induction evs arbitrary: s) (simp_all add: distinct_step)

text \<open>
  Claim C4, as the code has it. After every run of callbacks, in local-only and in
  distributed mode alike, the local waiting queue holds no id twice: every push is guarded
  by \<^verbatim>\<open>includes\<close>, so a repeated \<^verbatim>\<open>available\<close> adds no second local entry.
\<close>

theorem local_queue_distinct:
  "distinct (waitingQueue (run (init requeue maxMsg store) evs))"
  by (rule distinct_run) (simp add: init_def)

text \<open>
  The Redis list has no such guard: a connection that declares itself available twice pops
  its own id five times, pushes it back each time, and then pushes it once more.
\<close>

theorem redis_list_duplicate_counterexample:
  "feasible (init True 40 (Some [])) tr_twice
   \<and> pending (run (init True 40 (Some [])) tr_twice) = []
   \<and> partnerId (heap (run (init True 40 (Some [])) tr_twice) ''A'') = None
   \<and> redis (run (init True 40 (Some [])) tr_twice) = Some [''A'', ''A'']"
  by code_simp

section \<open>Local pairing\<close>

lemma registry_ok_ident: "registry_ok s \<Longrightarrow> k \<in> set (clients s) \<Longrightarrow> ident (heap s k) = k"
  by (simp add: registry_ok_def)

lemma createRoom_partner_first:
  "a \<noteq> b \<Longrightarrow> partnerId (heap (createRoom r a b s) a) = Some (ident (heap s b))"
  by (simp add: createRoom_heap)

lemma localFallback_not_self:
  assumes ok: "registry_ok s" and ida: "ident (heap s a) = a"
    and pa: "partnerId (heap s a) \<noteq> Some a"
  shows "partnerId (heap (localFallback e a s) a) \<noteq> Some a"
proof (cases "findAvailablePartner a s")
  case None
  then show ?thesis using pa ida by (simp add: localFallback_def)
next
  case (Some p)
  from findAvailablePartner_Some[OF Some] have p: "p \<in> set (clients s)" "p \<noteq> a" by auto
  have "ident (heap s p) = p" using registry_ok_ident[OF ok p(1)] .
  then show ?thesis using Some ida p
    by (simp add: localFallback_def createRoom_partner_first)
qed

lemma matchedGlobal_not_self:
  assumes ok: "registry_ok s" and pn: "p \<noteq> a"
  shows "partnerId (heap (matchedGlobal e a p s) a) \<noteq> Some a"
proof (cases "p \<in> set (clients s)")
  case True
  have "ident (heap s p) = p" using registry_ok_ident[OF ok True] .
  then show ?thesis using True pn
    by (simp add: matchedGlobal_def clients_get_def createRoom_partner_first)
next
  case False
  then show ?thesis using pn by (simp add: matchedGlobal_def clients_get_def Let_def)
qed

lemma resume_not_self:
  assumes ok: "registry_ok s" and ida: "ident (heap s a) = a"
    and pa: "partnerId (heap s a) \<noteq> Some a"
  shows "partnerId (heap (resume e a k s) a) \<noteq> Some a"
proof (cases k)
  case (AwaitPop n r)
  show ?thesis
  proof (cases r)
    case None
    then show ?thesis using AwaitPop localFallback_not_self[OF ok ida pa] by simp
  next
    case (Some q)
    show ?thesis
    proof (cases q)
      case None
      then show ?thesis using AwaitPop Some pa by simp
    next
      case (Some p)
      then show ?thesis
        using AwaitPop \<open>r = Some q\<close> pa ida matchedGlobal_not_self[OF ok, of p a e]
        by (simp add: split_beta)
    qed
  qed
next
  case (AwaitPushBack n ok')
  then show ?thesis using pa localFallback_not_self[OF ok ida pa] by simp
next
  case (AwaitEnqueue ok')
  then show ?thesis using pa localFallback_not_self[OF ok ida pa] by simp
next
  case (AwaitPublish ok')
  then show ?thesis using pa localFallback_not_self[OF ok ida pa] by simp
qed

lemma handleAvailable_not_self:
  assumes ok: "registry_ok s" and ida: "ident (heap s a) = a"
    and pa: "partnerId (heap s a) \<noteq> Some a"
  shows "partnerId (heap (handleAvailable e a s) a) \<noteq> Some a"
proof -
  let ?s1 = "modify a (\<lambda>c. c\<lparr>isAvailable := True\<rparr>) s"
  have ok1: "registry_ok ?s1" using ok by (simp add: registry_ok_def)
  have "partnerId (heap (localFallback e a ?s1) a) \<noteq> Some a"
    by (rule localFallback_not_self[OF ok1]) (use ida pa in simp_all)
  then show ?thesis using pa by (simp add: handleAvailable_def Let_def)
qed

lemma createRoom_room_fresh:
  assumes ab: "a \<noteq> b" and fresh: "\<forall>k. roomId (heap s k) \<noteq> Some r"
  shows "(roomId (heap (createRoom r a b s) k) = Some r) = (k = a \<or> k = b)"
  using assms by (simp add: createRoom_heap)

text \<open>
  Claim C5, as the code has it. For two distinct connections \<open>a\<close> and \<open>b\<close>, \<^verbatim>\<open>createRoom\<close>
  with the room id drawn from \<^verbatim>\<open>crypto.randomUUID()\<close> makes each the partner of the other,
  gives both that room id, clears both \<^verbatim>\<open>isAvailable\<close> flags, touches no other record,
  removes one occurrence of each id from the in-memory waiting queue (so that neither
  remains in a queue without duplicates) and leaves the Redis list as it is, and writes
  \<^verbatim>\<open>matched\<close> to each open socket with the other's id and the room id. When the drawn room
  id is held by no connection before, exactly \<open>a\<close> and \<open>b\<close> hold it afterwards. The partner
  search never returns the caller, and neither the start of \<^verbatim>\<open>handleAvailable\<close>, nor any of
  its continuations, nor the local code leaves a connection paired with itself.
\<close>

theorem local_pairing:
  assumes ab: "a \<noteq> b" and ida: "ident (heap s a) = a" and idb: "ident (heap s b) = b"
  shows "partnerId (heap (createRoom r a b s) a) = Some b
       \<and> partnerId (heap (createRoom r a b s) b) = Some a
       \<and> roomId (heap (createRoom r a b s) a) = Some r
       \<and> roomId (heap (createRoom r a b s) b) = Some r
       \<and> ((\<forall>k. roomId (heap s k) \<noteq> Some r) \<longrightarrow>
            (\<forall>k. (roomId (heap (createRoom r a b s) k) = Some r) = (k = a \<or> k = b)))
       \<and> \<not> isAvailable (heap (createRoom r a b s) a)
       \<and> \<not> isAvailable (heap (createRoom r a b s) b)
       \<and> (\<forall>k. k \<noteq> a \<and> k \<noteq> b \<longrightarrow> heap (createRoom r a b s) k = heap s k)
       \<and> clients (createRoom r a b s) = clients s
       \<and> waitingQueue (createRoom r a b s) = remove1 b (remove1 a (waitingQueue s))
       \<and> (distinct (waitingQueue s) \<longrightarrow>
            a \<notin> set (waitingQueue (createRoom r a b s))
            \<and> b \<notin> set (waitingQueue (createRoom r a b s)))
       \<and> redis (createRoom r a b s) = redis s
       \<and> sent (createRoom r a b s) =
            sent s @ (if wsOpen (heap s a) then [(a, Matched r b)] else [])
                   @ (if wsOpen (heap s b) then [(b, Matched r a)] else [])
       \<and> findAvailablePartner a s \<noteq> Some a
       \<and> (registry_ok s \<and> partnerId (heap s a) \<noteq> Some a \<longrightarrow>
            partnerId (heap (handleAvailable e a s) a) \<noteq> Some a
          \<and> partnerId (heap (resume e a k s) a) \<noteq> Some a
          \<and> partnerId (heap (localFallback e a s) a) \<noteq> Some a)"
proof -
  have "findAvailablePartner a s \<noteq> Some a"
    using findAvailablePartner_Some[of a s a] by auto
  moreover have "(\<forall>k. roomId (heap s k) \<noteq> Some r) \<longrightarrow>
            (\<forall>k. (roomId (heap (createRoom r a b s) k) = Some r) = (k = a \<or> k = b))"
    using createRoom_room_fresh[OF ab] by blast
  ultimately show ?thesis
    using ab ida idb handleAvailable_not_self[of s a e] resume_not_self[of s a e k]
      localFallback_not_self[of s a e]
    by (simp add: createRoom_heap createRoom_fields createRoom_queue createRoom_sent)
qed

theorem local_pairing_witness:
  "''B'' \<noteq> ''A'' \<and> distinct (waitingQueue s_one_waiting) \<and> registry_ok s_one_waiting
   \<and> partnerId (heap s_one_waiting ''B'') \<noteq> Some ''B''
   \<and> partnerId (heap (createRoom ''r2'' ''B'' ''A'' s_one_waiting) ''B'') = Some ''A''
   \<and> partnerId (heap (createRoom ''r2'' ''B'' ''A'' s_one_waiting) ''A'') = Some ''B''
   \<and> roomId (heap (createRoom ''r2'' ''B'' ''A'' s_one_waiting) ''B'') = Some ''r2''
   \<and> roomId (heap (createRoom ''r2'' ''B'' ''A'' s_one_waiting) ''A'') = Some ''r2''
   \<and> roomId (heap (createRoom ''r2'' ''B'' ''A'' s_one_waiting) ''C'') \<noteq> Some ''r2''
   \<and> ''A'' \<notin> set (waitingQueue (createRoom ''r2'' ''B'' ''A'' s_one_waiting))
   \<and> ''B'' \<notin> set (waitingQueue (createRoom ''r2'' ''B'' ''A'' s_one_waiting))
   \<and> partnerId (heap (handleAvailable (env1 ''r2'') ''B'' s_one_waiting) ''B'') \<noteq> Some ''B''"
proof -
  have h1: "''B'' \<noteq> ''A''" by simp
  have h2: "ident (heap s_one_waiting ''B'') = ''B''" by code_simp
  have h3: "ident (heap s_one_waiting ''A'') = ''A''" by code_simp
  have h4: "distinct (waitingQueue s_one_waiting)" by code_simp
  have h5: "registry_ok s_one_waiting" by code_simp
  have h6: "partnerId (heap s_one_waiting ''B'') \<noteq> Some ''B''" by code_simp
  have fresh: "\<forall>k. roomId (heap s_one_waiting k) \<noteq> Some ''r2''"
    by (simp add: s_one_waiting_def init_def onConnection_def clients_set_def sendToClient_def
        newClient_def onMessage_def rateLimitOK_def modify_def handleMessage_def
        handleAvailable_def localFallback_def findAvailablePartner_def queuePush_def env1_def)
  show ?thesis
    using h1 h4 h5 h6 fresh
      local_pairing[OF h1 h2 h3, of "''r2''" "env1 ''r2''" "AwaitEnqueue True"]
    by simp
qed

text \<open>
  The claim as written fails for the distributed queue. On one instance with a Redis store,
  \<open>A\<close> stands twice in the list; \<open>B\<close> pops one entry, and when its call continues it is
  paired with the local \<open>A\<close> by \<^verbatim>\<open>createRoom\<close>, which removes ids from the in-memory queue
  only: the id of the now paired \<open>A\<close> is still in the Redis list.
\<close>

theorem local_pairing_counterexample:
  "feasible (init True 40 (Some [])) (tr_popped @ replies 1 ''r3'')
   \<and> redis (run (init True 40 (Some [])) tr_popped) = Some [''A'']
   \<and> pending (run (init True 40 (Some [])) tr_popped) = [(''B'', AwaitPop 0 (Some (Some ''A'')))]
   \<and> partnerId (heap (run (init True 40 (Some [])) tr_popped) ''A'') = None
   \<and> partnerId (heap (run (init True 40 (Some [])) tr_popped) ''B'') = None
   \<and> pending (run (init True 40 (Some [])) (tr_popped @ replies 1 ''r3'')) = []
   \<and> partnerId (heap (run (init True 40 (Some [])) (tr_popped @ replies 1 ''r3'')) ''A'') = Some ''B''
   \<and> partnerId (heap (run (init True 40 (Some [])) (tr_popped @ replies 1 ''r3'')) ''B'') = Some ''A''
   \<and> redis (run (init True 40 (Some [])) (tr_popped @ replies 1 ''r3'')) = Some [''A'']"
  by code_simp

section \<open>A repeated declaration of availability\<close>









section \<open>Admission by the rate limiter\<close>

lemma createRoom_rate [simp]:
  "rate_ts (heap (createRoom r a b s) k) = rate_ts (heap s k)"
  "rate_count (heap (createRoom r a b s) k) = rate_count (heap s k)"
  by (simp_all add: createRoom_def Let_def)

lemma releasePartner_rate [simp]:
  "rate_ts (heap (releasePartner e p s) k) = rate_ts (heap s k)"
  "rate_count (heap (releasePartner e p s) k) = rate_count (heap s k)"
  by (simp_all add: releasePartner_def Let_def split: option.splits)

lemma resetClient_rate [simp]:
  "rate_ts (heap (resetClient i s) k) = rate_ts (heap s k)"
  "rate_count (heap (resetClient i s) k) = rate_count (heap s k)"
  by (simp_all add: resetClient_fields)

lemma localFallback_rate [simp]:
  "rate_ts (heap (localFallback e i s) k) = rate_ts (heap s k)"
  "rate_count (heap (localFallback e i s) k) = rate_count (heap s k)"
  by (simp_all add: localFallback_def split: option.splits)

lemma handleAvailable_rate [simp]:
  "rate_ts (heap (handleAvailable e i s) k) = rate_ts (heap s k)"
  "rate_count (heap (handleAvailable e i s) k) = rate_count (heap s k)"
  by (simp_all add: handleAvailable_def Let_def)

lemma handleMessage_rate [simp]:
  "rate_ts (heap (handleMessage e i m s) k) = rate_ts (heap s k)"
  "rate_count (heap (handleMessage e i m s) k) = rate_count (heap s k)"
  "MAX_MSG_PER_SECOND (handleMessage e i m s) = MAX_MSG_PER_SECOND s"
  by (cases m;
      simp add: handleMessage_def handleAuth_def handleOffer_def handleAnswer_def handleIce_def
        handleNext_def handleLeave_def resetClient_fields releasePartner_fields)+

lemma onMessage_rate:
  "rate_ts (heap (onMessage e i r s) k) = rate_ts (heap (snd (rateLimitOK e i s)) k)"
  "rate_count (heap (onMessage e i r s) k) = rate_count (heap (snd (rateLimitOK e i s)) k)"
  "MAX_MSG_PER_SECOND (onMessage e i r s) = MAX_MSG_PER_SECOND s"
  by (simp_all add: onMessage_eq Let_def split: raw.splits)

lemma rateLimitOK_window:
  "\<not> now e - rate_ts (heap s i) > 1000 \<Longrightarrow>
     fst (rateLimitOK e i s) = (rate_count (heap s i) + 1 \<le> MAX_MSG_PER_SECOND s)
   \<and> rate_count (heap (snd (rateLimitOK e i s)) i) = rate_count (heap s i) + 1
   \<and> rate_ts (heap (snd (rateLimitOK e i s)) i) = rate_ts (heap s i)"
  by (simp add: rateLimitOK_def Let_def)

lemma rateLimitOK_elapsed:
  "now e - rate_ts (heap s i) > 1000 \<Longrightarrow>
     fst (rateLimitOK e i s)
   \<and> rate_count (heap (snd (rateLimitOK e i s)) i) = 1
   \<and> rate_ts (heap (snd (rateLimitOK e i s)) i) = now e"
  by (simp add: rateLimitOK_def Let_def)

lemma feed_in_window:
  "\<forall>(e, r) \<in> set ms. \<not> now e - rate_ts (heap s i) > 1000 \<Longrightarrow>
   fst (feed i ms s) =
     map (\<lambda>n. rate_count (heap s i) + 1 + int n \<le> MAX_MSG_PER_SECOND s) [0..<length ms]"
proof (induction ms arbitrary: s)
  case Nil
  show ?case by simp
next
  case (Cons x ms)
  obtain e r where x: "x = (e, r)" by (cases x)
  let ?s1 = "onMessage e i r s"
  have w: "\<not> now e - rate_ts (heap s i) > 1000" using Cons.prems x by simp
  have ts: "rate_ts (heap ?s1 i) = rate_ts (heap s i)"
    and ct: "rate_count (heap ?s1 i) = rate_count (heap s i) + 1"
    and mx: "MAX_MSG_PER_SECOND ?s1 = MAX_MSG_PER_SECOND s"
    using rateLimitOK_window[OF w] by (simp_all add: onMessage_rate)
  have "\<forall>(e, r) \<in> set ms. \<not> now e - rate_ts (heap ?s1 i) > 1000"
    using Cons.prems ts by simp
  from Cons.IH[OF this]
  have tl: "fst (feed i ms ?s1) =
      map ((\<lambda>n. rate_count (heap s i) + 1 + int n \<le> MAX_MSG_PER_SECOND s) \<circ> Suc) [0..<length ms]"
    by (simp add: ct mx comp_def add.commute add.left_commute)
  have hd: "fst (rateLimitOK e i s) = (rate_count (heap s i) + 1 \<le> MAX_MSG_PER_SECOND s)"
    using rateLimitOK_window[OF w] by simp
  have "[0..<length (x # ms)] = 0 # map Suc [0..<length ms]"
    by (simp add: upt_conv_Cons map_Suc_upt del: upt_Suc)
  then show ?case
    using tl hd x by (simp add: split_beta del: upt_Suc)
qed

lemma verdicts_40: "map (\<lambda>n. (1::int) + 1 + int n \<le> 40) [0..<40] = replicate 39 True @ [False]"
  by code_simp

lemma feed_41:
  assumes mx: "MAX_MSG_PER_SECOND s = 40" and len: "length ms = 41"
    and first: "now (fst (hd ms)) - rate_ts (heap s i) > 1000"
    and win: "\<forall>(e, r) \<in> set ms. now e - now (fst (hd ms)) \<le> 1000"
  shows "fst (feed i ms s) = replicate 40 True @ [False]"
proof -
  from len obtain e r rest where ms: "ms = (e, r) # rest" and lr: "length rest = 40"
    by (cases ms) auto
  let ?s1 = "onMessage e i r s"
  have f: "now e - rate_ts (heap s i) > 1000" using first ms by simp
  have ts: "rate_ts (heap ?s1 i) = now e" and ct: "rate_count (heap ?s1 i) = 1"
    and mx1: "MAX_MSG_PER_SECOND ?s1 = 40"
    using rateLimitOK_elapsed[OF f] mx by (simp_all add: onMessage_rate)
  have "\<forall>(e', r') \<in> set rest. \<not> now e' - rate_ts (heap ?s1 i) > 1000"
    using win ms ts by auto
  from feed_in_window[OF this]
  have "fst (feed i rest ?s1) = replicate 39 True @ [False]"
    unfolding ct mx1 lr verdicts_40 .
  moreover have "fst (rateLimitOK e i s)" using rateLimitOK_elapsed[OF f] by simp
  ultimately show ?thesis using ms
    by (simp add: split_beta numeral_eq_Suc)
qed

text \<open>
  Claim C6. When more than 1000 ms have passed since the recorded window start, the
  limiter sets the count to 1, restarts the window and admits; otherwise it increments the
  count and admits exactly when the new count is at most \<^verbatim>\<open>MAX_MSG_PER_SECOND\<close>. An admitted
  message goes to the handler. A rejected message changes only the counter and the log of
  written messages, where the sender's open socket gets \<^verbatim>\<open>RATE_LIMIT\<close>, whatever the
  message was. With the limit at 40, of 41 messages inside one fresh window the first 40
  are admitted and the 41st is rejected.
\<close>

theorem rate_limiter:
  "(now e - rate_ts (heap s i) > 1000 \<longrightarrow>
      fst (rateLimitOK e i s)
    \<and> rate_count (heap (snd (rateLimitOK e i s)) i) = 1
    \<and> rate_ts (heap (snd (rateLimitOK e i s)) i) = now e)
 \<and> (\<not> now e - rate_ts (heap s i) > 1000 \<longrightarrow>
      fst (rateLimitOK e i s) = (rate_count (heap s i) + 1 \<le> MAX_MSG_PER_SECOND s)
    \<and> rate_count (heap (snd (rateLimitOK e i s)) i) = rate_count (heap s i) + 1
    \<and> rate_ts (heap (snd (rateLimitOK e i s)) i) = rate_ts (heap s i))
 \<and> (fst (rateLimitOK e i s) \<longrightarrow>
      onMessage e i (Json m) s = handleMessage e i m (snd (rateLimitOK e i s)))
 \<and> (\<not> fst (rateLimitOK e i s) \<longrightarrow>
      onMessage e i r s =
        (modify i (\<lambda>c. c\<lparr>rate_count := rate_count c + 1\<rparr>) s)
          \<lparr>sent := sent s @ (if wsOpen (heap s i) then [(i, Error RATE_LIMIT)] else [])\<rparr>)
 \<and> (MAX_MSG_PER_SECOND s = 40 \<and> length ms = 41
      \<and> now (fst (hd ms)) - rate_ts (heap s i) > 1000
      \<and> (\<forall>(e', r') \<in> set ms. now e' - now (fst (hd ms)) \<le> 1000) \<longrightarrow>
      fst (feed i ms s) = replicate 40 True @ [False])"
proof (intro conjI impI)
  assume "\<not> fst (rateLimitOK e i s)"
  then show "onMessage e i r s =
        (modify i (\<lambda>c. c\<lparr>rate_count := rate_count c + 1\<rparr>) s)
          \<lparr>sent := sent s @ (if wsOpen (heap s i) then [(i, Error RATE_LIMIT)] else [])\<rparr>"
    by (auto simp: onMessage_eq Let_def rateLimitOK_def sendToClient_eq modify_def split: if_splits)
qed (auto simp: rateLimitOK_elapsed rateLimitOK_window onMessage_eq Let_def feed_41)

theorem rate_limiter_witness:
  "now (env1 ''r'') - rate_ts (heap s_idle ''A'') > 1000
   \<and> fst (rateLimitOK (env1 ''r'') ''A'' s_idle)
   \<and> onMessage (env1 ''r'') ''A'' (Json Ping) s_idle
       = handleMessage (env1 ''r'') ''A'' Ping (snd (rateLimitOK (env1 ''r'') ''A'' s_idle))
   \<and> \<not> now (env1 ''r'') - rate_ts (heap s_busy ''A'') > 1000
   \<and> \<not> fst (rateLimitOK (env1 ''r'') ''A'' s_busy)
   \<and> onMessage (env1 ''r'') ''A'' (Json Leave) s_busy
       = (modify ''A'' (\<lambda>c. c\<lparr>rate_count := rate_count c + 1\<rparr>) s_busy)
           \<lparr>sent := sent s_busy
              @ (if wsOpen (heap s_busy ''A'') then [(''A'', Error RATE_LIMIT)] else [])\<rparr>
   \<and> MAX_MSG_PER_SECOND s_idle = 40 \<and> length (burst 41) = 41
   \<and> fst (feed ''A'' (burst 41) s_idle) = replicate 40 True @ [False]"
proof -
  have a1: "now (env1 ''r'') - rate_ts (heap s_idle ''A'') > 1000" by code_simp
  have b1: "\<not> now (env1 ''r'') - rate_ts (heap s_busy ''A'') > 1000" by code_simp
  have b2: "\<not> fst (rateLimitOK (env1 ''r'') ''A'' s_busy)" by code_simp
  have c1: "MAX_MSG_PER_SECOND s_idle = 40" by code_simp
  have c2: "length (burst 41) = 41" by (simp add: burst_def)
  have c3: "now (fst (hd (burst 41))) - rate_ts (heap s_idle ''A'') > 1000" by code_simp
  have c4: "\<forall>(e', r') \<in> set (burst 41). now e' - now (fst (hd (burst 41))) \<le> 1000"
    by (simp add: burst_def)
  show ?thesis
    using a1 b1 b2 c1 c2 c3 c4
      rate_limiter[of "env1 ''r''" s_idle "''A''" Ping "Json Ping" "burst 41"]
      rate_limiter[of "env1 ''r''" s_busy "''A''" Leave "Json Leave" "burst 41"]
    by blast
qed

section \<open>Order of matching in local-only mode\<close>

text \<open>
  Claim C2 fails on the code in local-only mode. The source calls \<^verbatim>\<open>waitingQueue\<close> a FIFO
  and keeps it in order of waiting, but the partner search walks the registry in order of
  connection and never reads the queue. Here \<open>B\<close> declared itself available before \<open>D\<close>
  and, after both lost their partners, was requeued before \<open>D\<close>, so the queue is
  \<open>[B, D]\<close>; but \<open>D\<close> connected first, and the newly available \<open>E\<close> is matched with \<open>D\<close>
  while \<open>B\<close> keeps waiting.
\<close>

theorem local_match_ignores_queue_order:
  "feasible (init True 40 None) tr_requeue
   \<and> registered_closes (init True 40 None) tr_requeue
   \<and> redis s_requeued = None
   \<and> waitingQueue s_requeued = [''B'', ''D'']
   \<and> isAvailable (heap s_requeued ''B'') \<and> partnerId (heap s_requeued ''B'') = None
   \<and> isAvailable (heap s_requeued ''D'') \<and> partnerId (heap s_requeued ''D'') = None
   \<and> partnerId (heap s_requeued ''E'') = None
   \<and> partnerId (heap (handleMessage (env1 ''r7'') ''E'' Available s_requeued) ''E'') = Some ''D''
   \<and> partnerId (heap (handleMessage (env1 ''r7'') ''E'' Available s_requeued) ''D'') = Some ''E''
   \<and> partnerId (heap (handleMessage (env1 ''r7'') ''E'' Available s_requeued) ''B'') = None
   \<and> isAvailable (heap (handleMessage (env1 ''r7'') ''E'' Available s_requeued) ''B'')
   \<and> waitingQueue (handleMessage (env1 ''r7'') ''E'' Available s_requeued) = [''B'']"
  by code_simp

end
